theory Spec2Isabelle
  imports Complex_Main "HOL-Library.Char_ord" "HOL-Library.List_Lexorder" "HOL-Library.Sublist"
    "HOL-Library.Code_Target_Nat"
begin

section \<open>The expense tracker of \<^verbatim>\<open>src/web/app/page.tsx\<close>\<close>

text \<open>
  The page component \<^verbatim>\<open>Home\<close> keeps one list of expense records in React state, mirrors
  it to one \<^verbatim>\<open>localStorage\<close> slot, and derives a filtered list, a total, the list of months
  and a ranking of category subtotals from it. The theory embeds that view-model: the two
  effects, the two event handlers and the four memoised values of the component are HOL
  functions of the same names, over models of the JavaScript built-ins they call. The
  markup and \<^verbatim>\<open>formatCurrency\<close>, which only formats the total for display, are left out.

  Conventions of the embedding.
  \<^item> A JavaScript string is a \<^typ>\<open>string\<close>; a \<^typ>\<open>char\<close> stands for one code unit
    (the code units \<open>0\<close> to \<open>255\<close>), compared by its code as JavaScript compares code units.
  \<^item> A JavaScript number is a \<open>number\<close>: \<open>NaN\<close>, the two infinities, or a finite value.
    Finite values are exact rationals: arithmetic on them is exact, the rounding of IEEE
    doubles to 53 bits is not modelled, and \<open>+0\<close> and \<open>-0\<close> are one value.
  \<^item> \<^verbatim>\<open>undefined\<close> in an optional field is \<open>None\<close>.
  \<^item> \<^verbatim>\<open>Date.now()\<close> and \<^verbatim>\<open>Math.random()\<close> are inputs of the function that reads them.
\<close>

subsection \<open>Strings\<close>

text \<open>The white space that \<^verbatim>\<open>String.prototype.trim\<close> and \<^verbatim>\<open>parseFloat\<close> strip: TAB, LF, VT, FF,
  CR, SP and NBSP (the other white space code points of ECMAScript lie above 255).\<close>

definition is_ws :: "char \<Rightarrow> bool" where
  "is_ws c = ((of_char c :: nat) \<in> {9, 10, 11, 12, 13, 32, 160})"

definition trim :: "string \<Rightarrow> string" where
  "trim s = rev (dropWhile is_ws (rev (dropWhile is_ws s)))"

text \<open>\<^verbatim>\<open>s.slice(0, n)\<close> for a non-negative \<open>n\<close>: the first \<open>n\<close> code units, or all of \<open>s\<close> when
  it is shorter.\<close>

definition slice0 :: "nat \<Rightarrow> string \<Rightarrow> string" where
  "slice0 n s = take n s"

text \<open>\<^verbatim>\<open>s.slice(a, b)\<close> for \<open>0 \<le> a \<le> b\<close>.\<close>

definition slice :: "nat \<Rightarrow> nat \<Rightarrow> string \<Rightarrow> string" where
  "slice a b s = drop a (take b s)"

definition is_digit :: "char \<Rightarrow> bool" where
  "is_digit c = (48 \<le> (of_char c :: nat) \<and> (of_char c :: nat) \<le> 57)"

definition digit_val :: "char \<Rightarrow> nat" where
  "digit_val c = of_char c - 48"

definition digit_char :: "nat \<Rightarrow> char" where
  "digit_char d = char_of (48 + d)"

text \<open>The value of a string of decimal digits, and the decimal digits of a natural number.\<close>

definition digits_val :: "string \<Rightarrow> nat" where
  "digits_val ds = foldl (\<lambda>a c. 10 * a + digit_val c) 0 ds"

fun dec :: "nat \<Rightarrow> string" where
  "dec n = (if n < 10 then [digit_char n] else dec (n div 10) @ [digit_char (n mod 10)])"

declare dec.simps [simp del]

subsection \<open>Maps\<close>

text \<open>A \<^verbatim>\<open>Map\<close> as the list of its entries in insertion order: \<^verbatim>\<open>get\<close> and \<^verbatim>\<open>set\<close>, which
  keeps the place of a key that is present and appends a new one.\<close>

fun map_set :: "'k \<Rightarrow> 'v \<Rightarrow> ('k \<times> 'v) list \<Rightarrow> ('k \<times> 'v) list" where
  "map_set k v [] = [(k, v)]"
| "map_set k v ((k', v') # m) = (if k' = k then (k, v) # m else (k', v') # map_set k v m)"


subsection \<open>Numbers\<close>

datatype number = NaN | PInf | NInf | Fin rat

fun num_add :: "number \<Rightarrow> number \<Rightarrow> number" where
  "num_add (Fin a) (Fin b) = Fin (a + b)"
| "num_add NaN _ = NaN"
| "num_add _ NaN = NaN"
| "num_add PInf NInf = NaN"
| "num_add NInf PInf = NaN"
| "num_add PInf _ = PInf"
| "num_add _ PInf = PInf"
| "num_add NInf _ = NInf"
| "num_add _ NInf = NInf"



text \<open>\<^verbatim>\<open>a < b\<close> and \<^verbatim>\<open>a <= b\<close> on numbers: false as soon as one side is \<open>NaN\<close>.\<close>

fun num_lt :: "number \<Rightarrow> number \<Rightarrow> bool" where
  "num_lt NaN _ = False"
| "num_lt _ NaN = False"
| "num_lt (Fin a) (Fin b) = (a < b)"
| "num_lt _ NInf = False"
| "num_lt NInf _ = True"
| "num_lt PInf _ = False"
| "num_lt _ PInf = True"

fun num_le :: "number \<Rightarrow> number \<Rightarrow> bool" where
  "num_le NaN _ = False"
| "num_le _ NaN = False"
| "num_le (Fin a) (Fin b) = (a \<le> b)"
| "num_le NInf _ = True"
| "num_le _ NInf = False"
| "num_le _ PInf = True"
| "num_le PInf _ = False"

definition isNaN :: "number \<Rightarrow> bool" where
  "isNaN x = (x = NaN)"

fun is_finite :: "number \<Rightarrow> bool" where
  "is_finite (Fin _) = True"
| "is_finite _ = False"

definition pow10 :: "int \<Rightarrow> rat" where
  "pow10 k = (if 0 \<le> k then 10 ^ nat k else 1 / 10 ^ nat (- k))"

subsubsection \<open>\<^verbatim>\<open>parseFloat\<close>\<close>

text \<open>
  \<^verbatim>\<open>parseFloat\<close> strips leading white space and reads the longest prefix that is a
  \<^verbatim>\<open>StrDecimalLiteral\<close>: an optional sign, then \<^verbatim>\<open>Infinity\<close>, or digits with an optional
  fraction, or a fraction alone, each with an optional exponent. With no such prefix the
  result is \<open>NaN\<close>. What follows the prefix is ignored.
\<close>

definition is_exp_mark :: "char \<Rightarrow> bool" where
  "is_exp_mark c = (c = CHR ''e'' \<or> c = CHR ''E'')"

text \<open>The sign at the head of a string: whether it is a minus, and the rest.\<close>

definition read_sign :: "string \<Rightarrow> bool \<times> string" where
  "read_sign s =
     (case s of
        [] \<Rightarrow> (False, s)
      | c # r \<Rightarrow> if c = CHR ''-'' then (True, r) else if c = CHR ''+'' then (False, r) else (False, s))"

text \<open>The exponent part at the head of a string, \<open>0\<close> when there is none (an exponent mark
  with no digit after it is not an exponent part).\<close>

definition exponent_part :: "string \<Rightarrow> int" where
  "exponent_part s =
     (case s of
        [] \<Rightarrow> 0
      | c # r \<Rightarrow>
          if is_exp_mark c then
            (let (neg, r') = read_sign r; ds = takeWhile is_digit r'
             in if ds = [] then 0
                else if neg then - int (digits_val ds) else int (digits_val ds))
          else 0)"

definition str_unsigned_decimal :: "string \<Rightarrow> rat option" where
  "str_unsigned_decimal u =
     (let ip = takeWhile is_digit u;
          r1 = dropWhile is_digit u;
          (fp, r2) = (case r1 of
                        [] \<Rightarrow> ([], r1)
                      | c # r \<Rightarrow> if c = CHR ''.'' then (takeWhile is_digit r, dropWhile is_digit r)
                                 else ([], r1))
      in if ip = [] \<and> fp = [] then None
         else Some (of_nat (digits_val (ip @ fp)) * pow10 (exponent_part r2 - int (length fp))))"

definition parseFloat :: "string \<Rightarrow> number" where
  "parseFloat input =
     (let (neg, u) = read_sign (dropWhile is_ws input)
      in if take 8 u = ''Infinity'' then (if neg then NInf else PInf)
         else case str_unsigned_decimal u of
                None \<Rightarrow> NaN
              | Some q \<Rightarrow> Fin (if neg then - q else q))"

subsubsection \<open>\<^verbatim>\<open>Number.prototype.toString\<close> and \<^verbatim>\<open>toFixed\<close>\<close>

text \<open>The number of fraction digits of a non-negative rational: the least \<open>j\<close> with
  \<open>q * 10 ^ j\<close> an integer, searched up to \<open>fuel\<close>. Every finite JavaScript number has
  such a \<open>j\<close>; the denominator of \<open>q\<close> is fuel enough.\<close>

fun fracdigs :: "nat \<Rightarrow> rat \<Rightarrow> nat" where
  "fracdigs fuel q =
     (if fuel = 0 \<or> of_int \<lfloor>q\<rfloor> = q then 0 else 1 + fracdigs (fuel - 1) (q * 10))"

declare fracdigs.simps [simp del]

definition strip_zeros :: "string \<Rightarrow> string" where
  "strip_zeros ds = rev (dropWhile (\<lambda>c. c = CHR ''0'') (rev ds))"

text \<open>\<^verbatim>\<open>Number::toString\<close> of a positive finite number: with \<open>s\<close> the \<open>k\<close> significant
  digits and \<open>n\<close> the position of the decimal point (the value is \<open>0.s * 10 ^ n\<close>), the four
  layouts of the ECMAScript algorithm.\<close>

definition exp_suffix :: "int \<Rightarrow> string" where
  "exp_suffix n = ''e'' @ (if 0 \<le> n - 1 then ''+'' else ''-'') @ dec (nat \<bar>n - 1\<bar>)"

definition pos_to_string :: "rat \<Rightarrow> string" where
  "pos_to_string q =
     (let j = fracdigs (nat (snd (quotient_of q))) q;
          ds = dec (nat \<lfloor>q * 10 ^ j\<rfloor>);
          s = strip_zeros ds;
          k = int (length s);
          n = int (length ds) - int j
      in if k \<le> n \<and> n \<le> 21 then s @ replicate (nat (n - k)) (CHR ''0'')
         else if 0 < n \<and> n \<le> 21 then take (nat n) s @ ''.'' @ drop (nat n) s
         else if - 6 < n \<and> n \<le> 0 then ''0.'' @ replicate (nat (- n)) (CHR ''0'') @ s
         else if k = 1 then s @ exp_suffix n
         else take 1 s @ ''.'' @ drop 1 s @ exp_suffix n)"

fun number_to_string :: "number \<Rightarrow> string" where
  "number_to_string NaN = ''NaN''"
| "number_to_string PInf = ''Infinity''"
| "number_to_string NInf = ''-Infinity''"
| "number_to_string (Fin q) =
     (if q = 0 then ''0''
      else if q < 0 then ''-'' @ pos_to_string (- q)
      else pos_to_string q)"

text \<open>\<^verbatim>\<open>x.toFixed(2)\<close>: the integer \<open>n\<close> nearest to \<open>100 * |x|\<close> (the larger one on a tie),
  written with at least one digit before the point and two after it; \<^verbatim>\<open>ToString(x)\<close> for
  a value that is not finite or is at least \<open>10 ^ 21\<close> in magnitude.\<close>

definition toFixed2 :: "number \<Rightarrow> string" where
  "toFixed2 x =
     (case x of
        Fin q \<Rightarrow>
          if 10 ^ 21 \<le> \<bar>q\<bar> then number_to_string x
          else
            (let n = nat \<lfloor>\<bar>q\<bar> * 100 + 1 / 2\<rfloor>;
                 m = dec n;
                 m' = (if length m \<le> 2 then replicate (3 - length m) (CHR ''0'') @ m else m);
                 a = take (length m' - 2) m';
                 b = drop (length m' - 2) m'
             in (if q < 0 then ''-'' else '''') @ a @ ''.'' @ b)
      | _ \<Rightarrow> number_to_string x)"

subsection \<open>JSON\<close>

text \<open>A JSON value. An object is the list of its properties in insertion order, with
  distinct keys. A number that is not finite has no JSON text; \<^verbatim>\<open>JSON.stringify\<close> writes
  \<^verbatim>\<open>null\<close> for it.\<close>

datatype json =
  JNull
| JBool bool
| JNum number
| JStr string
| JArr "json list"
| JObj "(string \<times> json) list"

definition dquote :: char where
  "dquote = CHR 0x22"

definition bslash :: char where
  "bslash = CHR 0x5C"

subsubsection \<open>\<^verbatim>\<open>JSON.stringify\<close>\<close>

definition hex_char :: "nat \<Rightarrow> char" where
  "hex_char d = (if d < 10 then char_of (48 + d) else char_of (87 + d))"

text \<open>\<^verbatim>\<open>QuoteJSONString\<close>: the quote, the backslash and the control characters are escaped,
  the five control characters with a short escape by it, the others as \<^verbatim>\<open>\u00XX\<close> in
  lower-case hexadecimal; every other code unit stands for itself.\<close>

definition quote_char :: "char \<Rightarrow> string" where
  "quote_char c =
     (let n = (of_char c :: nat)
      in if n = 8 then [bslash, CHR ''b'']
         else if n = 9 then [bslash, CHR ''t'']
         else if n = 10 then [bslash, CHR ''n'']
         else if n = 12 then [bslash, CHR ''f'']
         else if n = 13 then [bslash, CHR ''r'']
         else if c = dquote then [bslash, dquote]
         else if c = bslash then [bslash, bslash]
         else if n < 32 then [bslash, CHR ''u'', CHR ''0'', CHR ''0'', hex_char (n div 16), hex_char (n mod 16)]
         else [c])"

definition quote :: "string \<Rightarrow> string" where
  "quote s = dquote # concat (map quote_char s) @ [dquote]"

text \<open>The texts of a list joined by commas.\<close>

fun join :: "string list \<Rightarrow> string" where
  "join [] = []"
| "join [x] = x"
| "join (x # y # ys) = x @ '','' @ join (y # ys)"

fun JSON_stringify :: "json \<Rightarrow> string" where
  "JSON_stringify JNull = ''null''"
| "JSON_stringify (JBool b) = (if b then ''true'' else ''false'')"
| "JSON_stringify (JNum x) = (if is_finite x then number_to_string x else ''null'')"
| "JSON_stringify (JStr s) = quote s"
| "JSON_stringify (JArr xs) = ''['' @ join (map JSON_stringify xs) @ '']''"
| "JSON_stringify (JObj ps) =
     ''{'' @ join (map (\<lambda>(k, v). quote k @ '':'' @ JSON_stringify v) ps) @ ''}''"

subsubsection \<open>\<^verbatim>\<open>JSON.parse\<close>\<close>

text \<open>JSON white space: TAB, LF, CR and SP.\<close>

definition is_json_ws :: "char \<Rightarrow> bool" where
  "is_json_ws c = ((of_char c :: nat) \<in> {9, 10, 13, 32})"

definition skip_ws :: "string \<Rightarrow> string" where
  "skip_ws s = dropWhile is_json_ws s"

definition hex_val :: "char \<Rightarrow> nat option" where
  "hex_val c =
     (let n = (of_char c :: nat)
      in if 48 \<le> n \<and> n \<le> 57 then Some (n - 48)
         else if 97 \<le> n \<and> n \<le> 102 then Some (n - 87)
         else if 65 \<le> n \<and> n \<le> 70 then Some (n - 55)
         else None)"

text \<open>The code unit of a \<^verbatim>\<open>\uXXXX\<close> escape, from its four hexadecimal digits. A code unit
  above 255 has no counterpart in \<^typ>\<open>char\<close>: the model has no value for such a text.\<close>

definition unhex4 :: "string \<Rightarrow> char option" where
  "unhex4 ds =
     (case map hex_val ds of
        [Some a, Some b, Some c, Some d] \<Rightarrow>
          (let n = ((a * 16 + b) * 16 + c) * 16 + d in if n < 256 then Some (char_of n) else None)
      | _ \<Rightarrow> None)"

definition unescape :: "char \<Rightarrow> char option" where
  "unescape e =
     (if e = dquote then Some dquote
      else if e = bslash then Some bslash
      else if e = CHR ''/'' then Some (CHR ''/'')
      else if e = CHR ''b'' then Some (char_of (8 :: nat))
      else if e = CHR ''f'' then Some (char_of (12 :: nat))
      else if e = CHR ''n'' then Some (char_of (10 :: nat))
      else if e = CHR ''r'' then Some (char_of (13 :: nat))
      else if e = CHR ''t'' then Some (char_of (9 :: nat))
      else None)"

definition cons_result :: "char \<Rightarrow> (string \<times> string) option \<Rightarrow> (string \<times> string) option" where
  "cons_result c r = (case r of None \<Rightarrow> None | Some (s, rest) \<Rightarrow> Some (c # s, rest))"

text \<open>The characters of a string token after its opening quote, up to the closing quote,
  and the text after it. A raw control character, an unknown escape and the end of the text
  are syntax errors (\<open>None\<close>).\<close>

fun parse_string :: "string \<Rightarrow> (string \<times> string) option" where
  "parse_string [] = None"
| "parse_string (c # r) =
     (if c = dquote then Some ([], r)
      else if c = bslash then
        (case r of
           [] \<Rightarrow> None
         | e # r' \<Rightarrow>
             if e = CHR ''u'' then
               (case unhex4 (take 4 r') of
                  None \<Rightarrow> None
                | Some ch \<Rightarrow> cons_result ch (parse_string (drop 4 r')))
             else
               (case unescape e of
                  None \<Rightarrow> None
                | Some ch \<Rightarrow> cons_result ch (parse_string r')))
      else if (of_char c :: nat) < 32 then None
      else cons_result c (parse_string r))"

text \<open>A number token: an optional minus, an integer part with no leading zero, an optional
  fraction with at least one digit, an optional exponent with at least one digit.\<close>

definition json_frac :: "string \<Rightarrow> (string \<times> string) option" where
  "json_frac s =
     (case s of
        [] \<Rightarrow> Some ([], s)
      | c # r \<Rightarrow>
          if c = CHR ''.'' then
            (let fp = takeWhile is_digit r
             in if fp = [] then None else Some (fp, dropWhile is_digit r))
          else Some ([], s))"

definition json_exp :: "string \<Rightarrow> (int \<times> string) option" where
  "json_exp s =
     (case s of
        [] \<Rightarrow> Some (0, s)
      | c # r \<Rightarrow>
          if is_exp_mark c then
            (let (neg, r') = read_sign r; ds = takeWhile is_digit r'
             in if ds = [] then None
                else Some (if neg then - int (digits_val ds) else int (digits_val ds),
                           dropWhile is_digit r'))
          else Some (0, s))"

definition parse_number :: "string \<Rightarrow> (number \<times> string) option" where
  "parse_number s =
     (let (neg, s1) = (case s of [] \<Rightarrow> (False, s)
                               | c # r \<Rightarrow> if c = CHR ''-'' then (True, r) else (False, s));
          ip = takeWhile is_digit s1
      in if ip = [] \<or> (1 < length ip \<and> hd ip = CHR ''0'') then None
         else case json_frac (dropWhile is_digit s1) of
                None \<Rightarrow> None
              | Some (fp, r2) \<Rightarrow>
                  (case json_exp r2 of
                     None \<Rightarrow> None
                   | Some (e, r3) \<Rightarrow>
                       (let q = of_nat (digits_val (ip @ fp)) * pow10 (e - int (length fp))
                        in Some (Fin (if neg then - q else q), r3))))"

text \<open>One of the three literal names at the head of the text.\<close>

definition parse_literal :: "string \<Rightarrow> json \<Rightarrow> string \<Rightarrow> (json \<times> string) option" where
  "parse_literal name v s =
     (if take (length name) s = name then Some (v, drop (length name) s) else None)"

text \<open>The parser of values. The first argument bounds the number of nested calls; each call
  reads at least one character before the next, so the length of the text is bound enough
  (lemma \<open>JSON_parse_enough\<close> below).
  \<open>parse_elements\<close> reads the elements of an array after the first bracket, and
  \<open>parse_members\<close> the properties of an object; a key that comes twice keeps its first place
  and its last value.\<close>

fun parse_value :: "nat \<Rightarrow> string \<Rightarrow> (json \<times> string) option"
  and parse_elements :: "nat \<Rightarrow> json list \<Rightarrow> string \<Rightarrow> (json \<times> string) option"
  and parse_members :: "nat \<Rightarrow> (string \<times> json) list \<Rightarrow> string \<Rightarrow> (json \<times> string) option"
where
  "parse_value 0 s = None"
| "parse_value (Suc n) s =
     (case s of
        [] \<Rightarrow> None
      | c # r \<Rightarrow>
          if c = CHR ''{'' then
            (case skip_ws r of
               [] \<Rightarrow> None
             | d # r' \<Rightarrow> if d = CHR ''}'' then Some (JObj [], r') else parse_members n [] (d # r'))
          else if c = CHR ''['' then
            (case skip_ws r of
               [] \<Rightarrow> None
             | d # r' \<Rightarrow> if d = CHR '']'' then Some (JArr [], r') else parse_elements n [] (d # r'))
          else if c = dquote then
            (case parse_string r of None \<Rightarrow> None | Some (t, r') \<Rightarrow> Some (JStr t, r'))
          else if c = CHR ''t'' then parse_literal ''true'' (JBool True) s
          else if c = CHR ''f'' then parse_literal ''false'' (JBool False) s
          else if c = CHR ''n'' then parse_literal ''null'' JNull s
          else (case parse_number s of None \<Rightarrow> None | Some (x, r') \<Rightarrow> Some (JNum x, r')))"
| "parse_elements 0 acc s = None"
| "parse_elements (Suc n) acc s =
     (case parse_value n s of
        None \<Rightarrow> None
      | Some (v, r) \<Rightarrow>
          (case skip_ws r of
             [] \<Rightarrow> None
           | d # r' \<Rightarrow>
               if d = CHR '','' then parse_elements n (acc @ [v]) (skip_ws r')
               else if d = CHR '']'' then Some (JArr (acc @ [v]), r')
               else None))"
| "parse_members 0 acc s = None"
| "parse_members (Suc n) acc s =
     (case s of
        [] \<Rightarrow> None
      | c # r \<Rightarrow>
          if c = dquote then
            (case parse_string r of
               None \<Rightarrow> None
             | Some (k, r1) \<Rightarrow>
                 (case skip_ws r1 of
                    [] \<Rightarrow> None
                  | d # r2 \<Rightarrow>
                      if d = CHR '':'' then
                        (case parse_value n (skip_ws r2) of
                           None \<Rightarrow> None
                         | Some (v, r3) \<Rightarrow>
                             (case skip_ws r3 of
                                [] \<Rightarrow> None
                              | d' # r4 \<Rightarrow>
                                  if d' = CHR '','' then parse_members n (map_set k v acc) (skip_ws r4)
                                  else if d' = CHR ''}'' then Some (JObj (map_set k v acc), r4)
                                  else None))
                      else None))
          else None)"

text \<open>\<^verbatim>\<open>JSON.parse\<close>: one value between optional white space, and nothing after it;
  \<open>None\<close> is the \<^verbatim>\<open>SyntaxError\<close>.\<close>

definition JSON_parse :: "string \<Rightarrow> json option" where
  "JSON_parse s =
     (case parse_value (Suc (length s)) (skip_ws s) of
        None \<Rightarrow> None
      | Some (v, r) \<Rightarrow> if skip_ws r = [] then Some v else None)"

subsection \<open>The data model and the component's state\<close>

text \<open>\<^verbatim>\<open>type Expense = { id; date; category; amount; note? }\<close>. The fields \<open>id\<close> and \<open>note\<close>
  carry a prime: the plain names are taken in Isabelle.\<close>

record expense =
  id' :: string
  date :: string
  category :: string
  amount :: number
  note' :: "string option"

text \<open>The six \<^verbatim>\<open>useState\<close> cells of \<^verbatim>\<open>Home\<close>. The four form cells are prefixed \<open>form_\<close>,
  since \<open>amount\<close>, \<open>category\<close>, \<open>date\<close> and \<open>note\<close> also name the fields of a record.\<close>

record home =
  expenses :: "expense list"
  form_amount :: string
  form_category :: string
  form_date :: string
  form_note :: string
  filterMonth :: string

text \<open>The initial state: no records, an empty amount and note, the first default category,
  the filter \<^verbatim>\<open>"all"\<close>; \<open>today\<close> is \<^verbatim>\<open>new Date().toISOString().slice(0, 10)\<close>.\<close>

definition DEFAULT_CATEGORIES :: "string list" where
  "DEFAULT_CATEGORIES =
     [''Food'', ''Transport'', ''Housing'', ''Utilities'', ''Health'', ''Entertainment'',
      ''Shopping'', ''Travel'', ''Other'']"

definition initial :: "string \<Rightarrow> home" where
  "initial today =
     \<lparr>expenses = [], form_amount = '''', form_category = hd DEFAULT_CATEGORIES,
      form_date = today, form_note = '''', filterMonth = ''all''\<rparr>"

subsection \<open>The record store: \<^verbatim>\<open>addExpense\<close> and \<^verbatim>\<open>removeExpense\<close>\<close>

text \<open>The id of a new record, \<^verbatim>\<open>`${Date.now()}-${Math.random().toString(36).slice(2, 8)}`\<close>,
  from the clock \<open>now\<close> and the base-36 text \<open>rnd\<close> of the random number.\<close>

definition new_id :: "nat \<Rightarrow> string \<Rightarrow> string" where
  "new_id now rnd = dec now @ ''-'' @ slice 2 8 rnd"

definition newExpense :: "nat \<Rightarrow> string \<Rightarrow> home \<Rightarrow> number \<Rightarrow> expense" where
  "newExpense now rnd st parsedAmount =
     \<lparr>id' = new_id now rnd,
      date = form_date st,
      category = (if trim (form_category st) = [] then ''Other'' else trim (form_category st)),
      amount = parseFloat (toFixed2 parsedAmount),
      note' = (if trim (form_note st) = [] then None else Some (trim (form_note st)))\<rparr>"

definition addExpense :: "nat \<Rightarrow> string \<Rightarrow> home \<Rightarrow> home" where
  "addExpense now rnd st =
     (let parsedAmount = parseFloat (form_amount st)
      in if isNaN parsedAmount \<or> num_le parsedAmount (Fin 0) then st
         else if form_date st = [] then st
         else st\<lparr>expenses := newExpense now rnd st parsedAmount # expenses st,
                 form_amount := '''',
                 form_note := ''''\<rparr>)"

definition removeExpense :: "string \<Rightarrow> home \<Rightarrow> home" where
  "removeExpense i st = st\<lparr>expenses := filter (\<lambda>e. id' e \<noteq> i) (expenses st)\<rparr>"

subsection \<open>The derived view\<close>

definition filteredExpenses :: "home \<Rightarrow> expense list" where
  "filteredExpenses st =
     (if filterMonth st = ''all'' then expenses st
      else filter (\<lambda>e. slice0 7 (date e) = filterMonth st) (expenses st))"

definition total :: "home \<Rightarrow> number" where
  "total st = foldl (\<lambda>sum e. num_add sum (amount e)) (Fin 0) (filteredExpenses st)"










subsection \<open>The persistence adapter\<close>

text \<open>What \<^verbatim>\<open>JSON.stringify\<close> sees of a record: its fields in the order of the object
  literal of \<^verbatim>\<open>addExpense\<close>, without \<open>note\<close> when it is \<^verbatim>\<open>undefined\<close>.\<close>

definition toJSON :: "expense \<Rightarrow> json" where
  "toJSON e =
     JObj ([(''id'', JStr (id' e)), (''date'', JStr (date e)), (''category'', JStr (category e)),
            (''amount'', JNum (amount e))]
           @ (case note' e of None \<Rightarrow> [] | Some t \<Rightarrow> [(''note'', JStr t)]))"

text \<open>The persist effect writes \<^verbatim>\<open>JSON.stringify(expenses)\<close> to the slot.\<close>

definition save :: "expense list \<Rightarrow> string" where
  "save rs = JSON_stringify (JArr (map toJSON rs))"

text \<open>The load effect, from the content of the slot (\<open>None\<close> when \<^verbatim>\<open>getItem\<close> gives
  \<^verbatim>\<open>null\<close>): the array it passes to \<^verbatim>\<open>setExpenses\<close>, or the empty collection of the initial
  state when it passes none (no content, the empty string, or a \<^verbatim>\<open>SyntaxError\<close> caught; an
  exception of \<^verbatim>\<open>getItem\<close> itself is caught in the same way).\<close>

definition load :: "string option \<Rightarrow> json list" where
  "load raw =
     (case raw of
        None \<Rightarrow> []
      | Some s \<Rightarrow>
          if s = [] then []
          else (case JSON_parse s of
                  None \<Rightarrow> []
                | Some parsed \<Rightarrow> (case parsed of JArr xs \<Rightarrow> xs | _ \<Rightarrow> [])))"

text \<open>The cast \<^verbatim>\<open>as Expense[]\<close> checks nothing: the elements of the array are used as
  records. \<open>asExpense\<close> reads an element as the record it is when it has the shape of the
  type \<^verbatim>\<open>Expense\<close> (other properties are ignored), and is \<open>None\<close> on any other value.\<close>

definition asExpense :: "json \<Rightarrow> expense option" where
  "asExpense v =
     (case v of
        JObj ps \<Rightarrow>
          (case (map_of ps ''id'', map_of ps ''date'', map_of ps ''category'', map_of ps ''amount'') of
             (Some (JStr i), Some (JStr d), Some (JStr c), Some (JNum a)) \<Rightarrow>
               (case map_of ps ''note'' of
                  None \<Rightarrow> Some \<lparr>id' = i, date = d, category = c, amount = a, note' = None\<rparr>
                | Some (JStr t) \<Rightarrow> Some \<lparr>id' = i, date = d, category = c, amount = a, note' = Some t\<rparr>
                | Some _ \<Rightarrow> None)
           | _ \<Rightarrow> None)
      | _ \<Rightarrow> None)"

subsection \<open>Number tokens\<close>

text \<open>The shape that the texts of \<^verbatim>\<open>toString\<close> and \<^verbatim>\<open>toFixed\<close> have and that both parsers
  read: the digits \<open>ip\<close> of the integer part, the digits \<open>fp\<close> of the fraction (none when
  empty) and an exponent suffix (none when \<open>None\<close>), with the value such a text denotes.\<close>

definition tok :: "string \<Rightarrow> string \<Rightarrow> int option \<Rightarrow> string" where
  "tok ip fp ex =
     ip @ (if fp = [] then [] else CHR ''.'' # fp) @ (case ex of None \<Rightarrow> [] | Some n \<Rightarrow> exp_suffix n)"

definition tok_val :: "string \<Rightarrow> string \<Rightarrow> int option \<Rightarrow> rat" where
  "tok_val ip fp ex =
     of_nat (digits_val (ip @ fp)) * pow10 ((case ex of None \<Rightarrow> 0 | Some n \<Rightarrow> n - 1) - int (length fp))"

text \<open>A text after which a number token ends: it is empty, or its first character is none
  that continues a number.\<close>

definition ends_number :: "string \<Rightarrow> bool" where
  "ends_number r = (case r of [] \<Rightarrow> True | c # _ \<Rightarrow> \<not> is_digit c \<and> c \<noteq> CHR ''.'' \<and> \<not> is_exp_mark c)"

text \<open>A finite number whose decimal expansion ends, so that \<^verbatim>\<open>toString\<close> writes all of it:
  the search for its fraction digits arrives at an integer. Every IEEE double is one.\<close>

definition is_decimal :: "rat \<Rightarrow> bool" where
  "is_decimal q =
     (let j = fracdigs (nat (snd (quotient_of \<bar>q\<bar>))) \<bar>q\<bar>
      in of_int \<lfloor>\<bar>q\<bar> * 10 ^ j\<rfloor> = \<bar>q\<bar> * 10 ^ j)"

text \<open>A number rounded to two fractional digits, a half rounded up.\<close>

definition round2 :: "rat \<Rightarrow> rat" where
  "round2 q = of_int \<lfloor>q * 100 + 1 / 2\<rfloor> / 100"

text \<open>A rational that is an integer.\<close>

definition isint :: "rat \<Rightarrow> bool" where
  "isint x = (of_int \<lfloor>x\<rfloor> = x)"

subsection \<open>Well-formed records and their JSON texts\<close>

text \<open>A record is well formed for the persistence adapter when its amount is a finite number
  with an ending decimal expansion, as every finite double is; its strings are arbitrary.\<close>

definition well_formed :: "expense \<Rightarrow> bool" where
  "well_formed e = (case amount e of Fin q \<Rightarrow> is_decimal q | _ \<Rightarrow> False)"

text \<open>The values of the properties of a record: strings and finite numbers.\<close>

fun prim :: "json \<Rightarrow> bool" where
  "prim (JStr s) = True"
| "prim (JNum (Fin q)) = is_decimal q"
| "prim _ = False"

text \<open>The text of one property of an object.\<close>

definition member_text :: "string \<times> json \<Rightarrow> string" where
  "member_text p = quote (fst p) @ '':'' @ JSON_stringify (snd p)"

text \<open>An object of at most five properties with distinct keys, all strings or numbers.\<close>

definition flat :: "json \<Rightarrow> bool" where
  "flat v =
     (case v of
        JObj ps \<Rightarrow> ps \<noteq> [] \<and> length ps \<le> 5 \<and> distinct (map fst ps) \<and> list_all (\<lambda>p. prim (snd p)) ps
      | _ \<Rightarrow> False)"

subsection \<open>The invariant of the data model\<close>

text \<open>Every record of a collection has an amount above zero.\<close>

definition positive_amounts :: "expense list \<Rightarrow> bool" where
  "positive_amounts rs = list_all (\<lambda>e. num_lt (Fin 0) (amount e)) rs"


subsection \<open>A sample state\<close>

text \<open>Three records over two months and two categories, the form filled in for a fourth,
  and the filter set to November 2025.\<close>

definition sample :: home where
  "sample =
     \<lparr>expenses =
        [\<lparr>id' = ''3-c'', date = ''2025-12-02'', category = ''Food'', amount = Fin (29 / 4),
          note' = Some ''lunch''\<rparr>,
         \<lparr>id' = ''2-b'', date = ''2025-11-15'', category = ''Transport'', amount = Fin 30,
          note' = None\<rparr>,
         \<lparr>id' = ''1-a'', date = ''2025-11-01'', category = ''Food'', amount = Fin (25 / 2),
          note' = None\<rparr>],
      form_amount = ''12.50'', form_category = ''Food'', form_date = ''2025-11-01'',
      form_note = '''', filterMonth = ''2025-11''\<rparr>"


subsection \<open>Auxiliary notions of the proofs\<close>

text \<open>The exponent suffix of a token.\<close>

definition tok_exp :: "int option \<Rightarrow> string" where
  "tok_exp ex = (case ex of None \<Rightarrow> [] | Some n \<Rightarrow> exp_suffix n)"

text \<open>A text that begins with a comma or a closing brace.\<close>

definition delim :: "string \<Rightarrow> bool" where
  "delim r = (case r of [] \<Rightarrow> False | c # _ \<Rightarrow> c = CHR '','' \<or> c = CHR ''}'')"

text \<open>The parser with the bound \<open>n\<close> reads at least one character when it reads a value, and
  reads the same with every bound from the number of characters it read on; likewise for
  the elements of an array and the properties of an object.\<close>

definition ok_v :: "nat \<Rightarrow> bool" where
  "ok_v n = (\<forall>s v r. parse_value n s = Some (v, r) \<longrightarrow>
     length r < length s \<and> (\<forall>m. length s - length r \<le> m \<longrightarrow> parse_value m s = Some (v, r)))"

definition ok_e :: "nat \<Rightarrow> bool" where
  "ok_e n = (\<forall>acc s v r. parse_elements n acc s = Some (v, r) \<longrightarrow>
     length r < length s \<and> (\<forall>m. length s - length r \<le> m \<longrightarrow> parse_elements m acc s = Some (v, r)))"

definition ok_m :: "nat \<Rightarrow> bool" where
  "ok_m n = (\<forall>acc s v r. parse_members n acc s = Some (v, r) \<longrightarrow>
     length r < length s \<and> (\<forall>m. length s - length r \<le> m \<longrightarrow> parse_members m acc s = Some (v, r)))"


section \<open>Numbers and their texts\<close>

text \<open>The digits of a natural number denote it; the texts of \<^verbatim>\<open>toFixed(2)\<close> and of
  \<^verbatim>\<open>toString\<close> are number tokens, which \<^verbatim>\<open>parseFloat\<close> and the JSON parser read back.\<close>

lemma of_char_digit_char: "d < 10 \<Longrightarrow> (of_char (digit_char d) :: nat) = 48 + d"
  by (simp add: digit_char_def)

lemma is_digit_digit_char: "d < 10 \<Longrightarrow> is_digit (digit_char d)"
  by (simp add: is_digit_def of_char_digit_char)

lemma digit_val_digit_char: "d < 10 \<Longrightarrow> digit_val (digit_char d) = d"
  by (simp add: digit_val_def of_char_digit_char)

lemma digit_char_0: "digit_char 0 = CHR ''0''"
  by code_simp

lemma digit_char_eq_0: "d < 10 \<Longrightarrow> digit_char d = CHR ''0'' \<longleftrightarrow> d = 0"
proof
  assume "d < 10" "digit_char d = CHR ''0''"
  then have "(of_char (digit_char d) :: nat) = of_char (CHR ''0'')" by simp
  then show "d = 0" using \<open>d < 10\<close> by (simp add: of_char_digit_char)
qed (simp add: digit_char_0)

lemma digits_dec: "c \<in> set (dec n) \<Longrightarrow> is_digit c"
proof (induction n arbitrary: c rule: dec.induct)
  case (1 n)
  then show ?case
    by (subst (asm) (2) dec.simps) (auto simp: is_digit_digit_char split: if_splits)
qed

lemma dec_nonempty: "dec n \<noteq> []"
  by (subst dec.simps) simp

lemma foldl_digits:
  "foldl (\<lambda>a c. 10 * a + digit_val c) a ys =
     a * 10 ^ length ys + foldl (\<lambda>a c. 10 * a + digit_val c) 0 ys"
proof (induction ys arbitrary: a)
  case Nil
  then show ?case by simp
next
  case (Cons y ys)
  show ?case
    by (simp add: Cons.IH [of "10 * a + digit_val y"] Cons.IH [of "digit_val y"] add_mult_distrib)
qed

lemma digits_val_append:
  "digits_val (xs @ ys) = digits_val xs * 10 ^ length ys + digits_val ys"
  by (simp add: digits_val_def foldl_digits [of "foldl _ _ xs"])

lemma digits_val_single: "digits_val [c] = digit_val c"
  by (simp add: digits_val_def)

lemma digits_val_Nil: "digits_val [] = 0"
  by (simp add: digits_val_def)

lemma digits_val_dec: "digits_val (dec n) = n"
proof (induction n rule: dec.induct)
  case (1 n)
  show ?case
  proof (cases "n < 10")
    case True
    then show ?thesis by (subst dec.simps) (simp add: digits_val_single digit_val_digit_char)
  next
    case False
    then have "digits_val (dec (n div 10)) = n div 10" using 1 by simp
    then show ?thesis using False
      by (subst dec.simps) (simp add: digits_val_append digits_val_single digit_val_digit_char)
  qed
qed

lemma hd_dec: "0 < n \<Longrightarrow> hd (dec n) \<noteq> CHR ''0''"
proof (induction n rule: dec.induct)
  case (1 n)
  show ?case
  proof (cases "n < 10")
    case True
    then show ?thesis using "1.prems" by (subst dec.simps) (simp add: digit_char_eq_0)
  next
    case False
    then have "hd (dec (n div 10)) \<noteq> CHR ''0''" using 1 by simp
    then show ?thesis using False by (subst dec.simps) (simp add: dec_nonempty)
  qed
qed

lemma digits_val_zeros: "digits_val (replicate k (CHR ''0'') @ ds) = digits_val ds"
proof (induction k)
  case 0
  then show ?case by simp
next
  case (Suc k)
  have "digits_val (CHR ''0'' # xs) = digits_val xs" for xs
    using digits_val_append [of "[CHR ''0'']" xs] by (simp add: digits_val_single digit_val_def)
  then show ?case using Suc by simp
qed

lemma not_digit_chars:
  "\<not> is_digit (CHR ''.'')" "\<not> is_digit (CHR ''e'')" "\<not> is_digit (CHR ''-'')" "\<not> is_digit (CHR ''+'')"
  "\<not> is_digit (CHR '','')" "\<not> is_digit (CHR ''}'')" "\<not> is_digit (CHR '']'')"
  by (simp_all add: is_digit_def)

lemma digit_not_special:
  assumes "is_digit c"
  shows "\<not> is_ws c" "c \<noteq> CHR ''-''" "c \<noteq> CHR ''+''" "c \<noteq> CHR ''I''" "c \<noteq> CHR ''.''"
    "\<not> is_exp_mark c"
  using assms by (auto simp: is_digit_def is_ws_def is_exp_mark_def)

lemma takeWhile_digits:
  "\<forall>c\<in>set ds. is_digit c \<Longrightarrow> (r = [] \<or> \<not> is_digit (hd r)) \<Longrightarrow> takeWhile is_digit (ds @ r) = ds"
  by (cases r) (auto simp: takeWhile_append2)

lemma dropWhile_digits:
  "\<forall>c\<in>set ds. is_digit c \<Longrightarrow> (r = [] \<or> \<not> is_digit (hd r)) \<Longrightarrow> dropWhile is_digit (ds @ r) = r"
  by (cases r) (auto simp: dropWhile_append2)




lemma json_exp_suffix: "ends_number r \<Longrightarrow> json_exp (exp_suffix n @ r) = Some (n - 1, r)"
proof -
  assume r: "ends_number r"
  have nd: "r = [] \<or> \<not> is_digit (hd r)" using r by (cases r) (auto simp: ends_number_def)
  have tw: "takeWhile is_digit (dec k @ r) = dec k" for k
    using nd by (intro takeWhile_digits) (auto simp: digits_dec)
  have dw: "dropWhile is_digit (dec k @ r) = r" for k
    using nd by (intro dropWhile_digits) (auto simp: digits_dec)
  show ?thesis
    by (simp add: json_exp_def exp_suffix_def is_exp_mark_def read_sign_def tw dw
        dec_nonempty digits_val_dec)
qed

lemma json_exp_other: "ends_number r \<Longrightarrow> json_exp r = Some (0, r)"
  by (cases r) (auto simp: ends_number_def json_exp_def)

lemma tok_alt: "tok ip fp ex = ip @ (if fp = [] then [] else CHR ''.'' # fp) @ tok_exp ex"
  by (simp add: tok_def tok_exp_def)

lemma tok_exp_nodigit: "ends_number r \<Longrightarrow> tok_exp ex @ r = [] \<or> \<not> is_digit (hd (tok_exp ex @ r))"
  by (cases ex; cases r) (auto simp: tok_exp_def ends_number_def exp_suffix_def not_digit_chars)

lemma tok_exp_nodot: "ends_number r \<Longrightarrow> tok_exp ex @ r = [] \<or> hd (tok_exp ex @ r) \<noteq> CHR ''.''"
  by (cases ex; cases r) (auto simp: tok_exp_def ends_number_def exp_suffix_def)


lemma json_exp_tok_exp:
  "ends_number r \<Longrightarrow> json_exp (tok_exp ex @ r) = Some ((case ex of None \<Rightarrow> 0 | Some n \<Rightarrow> n - 1), r)"
  by (cases ex) (simp_all add: tok_exp_def json_exp_other json_exp_suffix)



lemma parse_number_tok:
  assumes "ip \<noteq> []" and "\<forall>c\<in>set ip. is_digit c" and "\<forall>c\<in>set fp. is_digit c"
    and "length ip = 1 \<or> hd ip \<noteq> CHR ''0''" and "ends_number r"
  shows "parse_number (tok ip fp ex @ r) = Some (Fin (tok_val ip fp ex), r)"
    and "parse_number (CHR ''-'' # tok ip fp ex @ r) = Some (Fin (- tok_val ip fp ex), r)"
proof -
  obtain c t where ip: "ip = c # t" using assms(1) by (cases ip) auto
  have c: "is_digit c" using assms(2) ip by simp
  let ?t = "tok_exp ex @ r"
  let ?f = "(if fp = [] then [] else CHR ''.'' # fp) @ ?t"
  have nd: "?t = [] \<or> \<not> is_digit (hd ?t)" by (rule tok_exp_nodigit [OF assms(5)])
  have nodot: "?t = [] \<or> hd ?t \<noteq> CHR ''.''" by (rule tok_exp_nodot [OF assms(5)])
  have ndf: "?f = [] \<or> \<not> is_digit (hd ?f)" using nd by (auto simp: not_digit_chars)
  have tw: "takeWhile is_digit (ip @ ?f) = ip" and dw: "dropWhile is_digit (ip @ ?f) = ?f"
    by (rule takeWhile_digits [OF assms(2) ndf], rule dropWhile_digits [OF assms(2) ndf])
  have tw2: "takeWhile is_digit (fp @ ?t) = fp" and dw2: "dropWhile is_digit (fp @ ?t) = ?t"
    by (rule takeWhile_digits [OF assms(3) nd], rule dropWhile_digits [OF assms(3) nd])
  have fr: "json_frac ?f = Some (fp, ?t)"
  proof (cases "fp = []")
    case True
    then show ?thesis using nodot by (cases ?t) (auto simp: json_frac_def)
  next
    case False
    then show ?thesis using tw2 dw2 by (simp add: json_frac_def)
  qed
  have ex: "json_exp ?t = Some ((case ex of None \<Rightarrow> 0 | Some n \<Rightarrow> n - 1), r)"
    by (rule json_exp_tok_exp [OF assms(5)])
  have t: "tok ip fp ex @ r = ip @ ?f" by (simp add: tok_alt)
  have lead: "\<not> (1 < length ip \<and> hd ip = CHR ''0'')" using assms(4) by auto
  have cm: "c \<noteq> CHR ''-''" using digit_not_special [OF c] by simp
  have "parse_number (ip @ ?f) = Some (Fin (tok_val ip fp ex), r)"
    unfolding parse_number_def ip [symmetric]
    using tw dw fr ex lead assms(1) cm
    by (simp add: ip tok_val_def)
  then show "parse_number (tok ip fp ex @ r) = Some (Fin (tok_val ip fp ex), r)"
    by (simp only: t)
  have "parse_number (CHR ''-'' # ip @ ?f) = Some (Fin (- tok_val ip fp ex), r)"
    unfolding parse_number_def
    using tw dw fr ex lead assms(1)
    by (simp add: tok_val_def Let_def)
  then show "parse_number (CHR ''-'' # tok ip fp ex @ r) = Some (Fin (- tok_val ip fp ex), r)"
    by (simp only: t append_Cons)
qed

lemma pow10_powi: "pow10 k = 10 powi k"
  by (auto simp: pow10_def power_int_def field_simps)

lemma pow10_add: "pow10 (a + b) = pow10 a * pow10 b"
  by (simp add: pow10_powi power_int_add)

lemma pow10_nat: "pow10 (int k) = 10 ^ k"
  by (simp add: pow10_powi)

lemma pow10_0: "pow10 0 = 1"
  by (simp add: pow10_def)




text \<open>\<open>round2\<close> is a rounding to two fractional digits: the result is within half a
  hundredth of the number and is a multiple of a hundredth.\<close>

lemma round2_props: "\<bar>round2 q - q\<bar> \<le> 1 / 200 \<and> of_int \<lfloor>round2 q * 100\<rfloor> = round2 q * 100"
proof -
  define f :: rat where "f = of_int \<lfloor>q * 100 + 1 / 2\<rfloor>"
  have 1: "f \<le> q * 100 + 1 / 2" unfolding f_def by (rule of_int_floor_le)
  have 2: "q * 100 + 1 / 2 < f + 1" unfolding f_def by linarith
  have r: "round2 q = f / 100" by (simp add: round2_def f_def)
  have "f / 100 - q \<le> 1 / 200" and "- (f / 100 - q) \<le> 1 / 200" using 1 2 by linarith+
  then have "\<bar>f / 100 - q\<bar> \<le> 1 / 200" by (rule abs_leI)
  moreover have "of_int \<lfloor>round2 q * 100\<rfloor> = round2 q * 100" by (simp add: round2_def)
  ultimately show ?thesis by (simp add: r)
qed


lemma strip_zeros_decomp: "\<exists>z. ds = strip_zeros ds @ replicate z (CHR ''0'')"
proof -
  let ?P = "\<lambda>c. c = CHR ''0''"
  let ?t = "takeWhile ?P (rev ds)"
  have "\<forall>y\<in>set ?t. y = CHR ''0''" by (auto dest: set_takeWhileD)
  then have t: "replicate (length ?t) (CHR ''0'') = ?t" by (rule replicate_length_same)
  have "rev ds = ?t @ dropWhile ?P (rev ds)" by simp
  then have "rev (rev ds) = rev (?t @ dropWhile ?P (rev ds))" by (rule arg_cong)
  then have "ds = strip_zeros ds @ rev ?t" by (simp only: rev_rev_ident rev_append strip_zeros_def)
  moreover have "rev ?t = replicate (length ?t) (CHR ''0'')" by (subst t [symmetric]) simp
  ultimately show ?thesis by metis
qed

lemma strip_zeros_hd:
  assumes "ds \<noteq> []" and "hd ds \<noteq> CHR ''0''"
  shows "strip_zeros ds \<noteq> []" and "hd (strip_zeros ds) = hd ds"
proof -
  obtain z where z: "ds = strip_zeros ds @ replicate z (CHR ''0'')"
    using strip_zeros_decomp by blast
  show ne: "strip_zeros ds \<noteq> []"
  proof
    assume "strip_zeros ds = []"
    then have "ds = replicate z (CHR ''0'')" using z by simp
    then show False using assms by (cases z) auto
  qed
  show "hd (strip_zeros ds) = hd ds" using ne by (subst (2) z) simp
qed

lemma strip_zeros_digits: "\<forall>c\<in>set ds. is_digit c \<Longrightarrow> \<forall>c\<in>set (strip_zeros ds). is_digit c"
  by (auto simp: strip_zeros_def dest: set_dropWhileD)

lemma is_digit_0: "is_digit (CHR ''0'')"
  by (simp add: is_digit_def)

lemma digits_val_replicate_0: "digits_val (replicate z (CHR ''0'')) = 0"
  using digits_val_zeros [of z "[]"] by (simp add: digits_val_Nil)

lemma digits_val_append_zeros: "digits_val (s @ replicate z (CHR ''0'')) = digits_val s * 10 ^ z"
  by (simp add: digits_val_append digits_val_replicate_0)

lemma pos_to_string_tok:
  assumes "0 < q" and "is_decimal q"
  shows "\<exists>ip fp ex. pos_to_string q = tok ip fp ex \<and> ip \<noteq> [] \<and> (\<forall>c\<in>set ip. is_digit c)
           \<and> (\<forall>c\<in>set fp. is_digit c) \<and> (length ip = 1 \<or> hd ip \<noteq> CHR ''0'')
           \<and> tok_val ip fp ex = q"
proof -
  define j where "j = fracdigs (nat (snd (quotient_of q))) q"
  define M where "M = nat \<lfloor>q * 10 ^ j\<rfloor>"
  define ds where "ds = dec M"
  define s where "s = strip_zeros ds"
  define k where "k = int (length s)"
  define n where "n = int (length ds) - int j"
  have aq: "\<bar>q\<bar> = q" using assms(1) by simp
  have int: "of_int \<lfloor>q * 10 ^ j\<rfloor> = q * 10 ^ j"
    using assms(2) unfolding is_decimal_def Let_def aq j_def by simp
  have pos: "0 < q * 10 ^ j" using assms(1) by simp
  then have "0 < \<lfloor>q * 10 ^ j\<rfloor>" using int by (metis of_int_0_less_iff)
  then have M: "0 < M" and Mq: "(of_nat M :: rat) = q * 10 ^ j"
    using int by (simp_all add: M_def)
  have ds_ne: "ds \<noteq> []" and ds_hd: "hd ds \<noteq> CHR ''0''" and ds_dig: "\<forall>c\<in>set ds. is_digit c"
    using M by (simp_all add: ds_def dec_nonempty hd_dec digits_dec)
  have s_ne: "s \<noteq> []" and s_hd: "hd s \<noteq> CHR ''0''" and s_dig: "\<forall>c\<in>set s. is_digit c"
    using strip_zeros_hd [OF ds_ne ds_hd] ds_hd strip_zeros_digits [OF ds_dig] by (simp_all add: s_def)
  obtain z where z: "ds = s @ replicate z (CHR ''0'')"
    using strip_zeros_decomp [of ds] by (auto simp: s_def)
  have len: "int (length ds) = k + int z" by (subst z) (simp add: k_def)
  have nk: "n - k = int z - int j" using len by (simp add: n_def)
  have "digits_val ds = digits_val s * 10 ^ z"
    by (subst z) (rule digits_val_append_zeros)
  then have "(of_nat (digits_val s) :: rat) * 10 ^ z = q * 10 ^ j"
    using Mq by (simp add: ds_def digits_val_dec)
  then have "of_nat (digits_val s) * pow10 (int z) = q * pow10 (int j)"
    by (simp add: pow10_nat)
  then have "of_nat (digits_val s) * pow10 (int z) * pow10 (- int j) = q * (pow10 (int j) * pow10 (- int j))"
    by simp
  then have val: "of_nat (digits_val s) * pow10 (n - k) = q"
    unfolding nk by (simp add: pow10_add [symmetric] pow10_0 diff_conv_add_uminus mult.assoc
        del: add_uminus_conv_diff)
  have k1: "1 \<le> k" using s_ne by (cases s) (auto simp: k_def)
  have p: "pos_to_string q =
      (if k \<le> n \<and> n \<le> 21 then s @ replicate (nat (n - k)) (CHR ''0'')
       else if 0 < n \<and> n \<le> 21 then take (nat n) s @ ''.'' @ drop (nat n) s
       else if - 6 < n \<and> n \<le> 0 then ''0.'' @ replicate (nat (- n)) (CHR ''0'') @ s
       else if k = 1 then s @ exp_suffix n
       else take 1 s @ ''.'' @ drop 1 s @ exp_suffix n)"
    by (simp add: pos_to_string_def Let_def j_def M_def ds_def s_def k_def n_def)
  consider (a) "k \<le> n" "n \<le> 21" | (b) "n < k" "0 < n" "n \<le> 21" | (c) "n < k" "- 6 < n" "n \<le> 0"
    | (d) "\<not> (k \<le> n \<and> n \<le> 21)" "\<not> (0 < n \<and> n \<le> 21)" "\<not> (- 6 < n \<and> n \<le> 0)" "k = 1"
    | (e) "\<not> (k \<le> n \<and> n \<le> 21)" "\<not> (0 < n \<and> n \<le> 21)" "\<not> (- 6 < n \<and> n \<le> 0)" "k \<noteq> 1"
    using k1 by linarith
  then show ?thesis
  proof cases
    case a
    let ?ip = "s @ replicate (nat (n - k)) (CHR ''0'')"
    have "pos_to_string q = tok ?ip [] None" using a by (simp add: p tok_def)
    moreover have "tok_val ?ip [] None = q"
      using val a pow10_nat [of "nat (n - k)"]
      by (simp add: tok_val_def digits_val_append_zeros pow10_0)
    moreover have "?ip \<noteq> []" "\<forall>c\<in>set ?ip. is_digit c" "hd ?ip \<noteq> CHR ''0''"
      using s_ne s_dig s_hd is_digit_0 by auto
    ultimately show ?thesis by (intro exI [of _ ?ip] exI [of _ "[]"] exI [of _ None]) simp
  next
    case b
    let ?ip = "take (nat n) s" and ?fp = "drop (nat n) s"
    have fp: "?fp \<noteq> []" and lfp: "int (length ?fp) = k - n" using b by (auto simp: k_def)
    have "pos_to_string q = tok ?ip ?fp None" using b fp by (simp add: p tok_def)
    moreover have "tok_val ?ip ?fp None = q"
      using val by (simp add: tok_val_def lfp del: length_drop)
    moreover have "?ip \<noteq> []" "hd ?ip \<noteq> CHR ''0''"
      using s_ne s_hd b by (auto simp: hd_take)
    moreover have "\<forall>c\<in>set ?ip. is_digit c" "\<forall>c\<in>set ?fp. is_digit c"
      using s_dig by (auto dest: in_set_takeD in_set_dropD)
    ultimately show ?thesis by (intro exI [of _ ?ip] exI [of _ ?fp] exI [of _ None]) simp
  next
    case c
    let ?ip = "''0''" and ?fp = "replicate (nat (- n)) (CHR ''0'') @ s"
    have fp: "?fp \<noteq> []" and lfp: "- int (length ?fp) = n - k" using s_ne c by (auto simp: k_def)
    have "pos_to_string q = tok ?ip ?fp None" using c k1 fp by (simp add: p tok_def)
    moreover have "digits_val (?ip @ ?fp) = digits_val s"
      using digits_val_zeros [of "Suc (nat (- n))" s] by simp
    then have "tok_val ?ip ?fp None = q"
      using val unfolding tok_val_def by (simp only: option.case lfp diff_0)
    moreover have "\<forall>c\<in>set ?ip. is_digit c" "\<forall>c\<in>set ?fp. is_digit c"
      using s_dig is_digit_0 by auto
    ultimately show ?thesis by (intro exI [of _ ?ip] exI [of _ ?fp] exI [of _ None]) simp
  next
    case d
    have "pos_to_string q = s @ exp_suffix n"
      unfolding p using d by (simp only: if_False if_True refl)
    then have "pos_to_string q = tok s [] (Some n)" by (simp add: tok_def)
    moreover have "tok_val s [] (Some n) = q" using val d by (simp add: tok_val_def)
    moreover have "length s = 1" using d by (simp add: k_def)
    ultimately show ?thesis
      using s_ne s_dig by (intro exI [of _ s] exI [of _ "[]"] exI [of _ "Some n"]) simp
  next
    case e
    let ?ip = "take 1 s" and ?fp = "drop 1 s"
    have k2: "2 \<le> k" using e k1 by simp
    have fp: "?fp \<noteq> []" and lfp: "int (length ?fp) = k - 1" and lip: "length ?ip = 1"
      using k2 by (auto simp: k_def)
    have "pos_to_string q = take 1 s @ ''.'' @ drop 1 s @ exp_suffix n"
      unfolding p using e by (simp only: if_False if_True refl)
    then have "pos_to_string q = tok ?ip ?fp (Some n)" using fp by (simp add: tok_def)
    moreover have "tok_val ?ip ?fp (Some n) = of_nat (digits_val s) * pow10 (n - 1 - (k - 1))"
      unfolding tok_val_def by (simp only: append_take_drop_id option.case lfp)
    then have "tok_val ?ip ?fp (Some n) = q" using val by simp
    moreover have "?ip \<noteq> []" using s_ne by simp
    moreover have "\<forall>c\<in>set ?ip. is_digit c" "\<forall>c\<in>set ?fp. is_digit c"
      using s_dig by (auto dest: in_set_takeD in_set_dropD)
    ultimately show ?thesis
      using lip by (intro exI [of _ ?ip] exI [of _ ?fp] exI [of _ "Some n"]) simp
  qed
qed

lemma dvd_pow10_self:
  fixes b :: nat
  assumes "0 < b" and "b dvd 10 ^ k"
  shows "b dvd 10 ^ b"
  using assms
proof (induction b arbitrary: k rule: less_induct)
  case (less b)
  show ?case
  proof (cases "b = 1")
    case True
    then show ?thesis by simp
  next
    case False
    define g where "g = gcd b 10"
    have g1: "g \<noteq> 1"
    proof
      assume "g = 1"
      then have "coprime b 10" by (simp add: g_def coprime_iff_gcd_eq_1)
      then have "coprime b (10 ^ k)" by (simp add: coprime_power_right_iff)
      then have "is_unit b" using less.prems(2) coprime_absorb_left by blast
      then have "b = 1" by simp
      then show False using False by simp
    qed
    have g0: "0 < g" using less.prems(1) by (simp add: g_def)
    then have g2: "2 \<le> g" using g1 by simp
    have gb: "g dvd b" and g10: "g dvd 10" by (simp_all add: g_def)
    define b' where "b' = b div g"
    have b: "b = g * b'" using gb by (simp add: b'_def)
    have b'0: "0 < b'" using less.prems(1) b by (cases b') auto
    have b'lt: "b' < b" using b g2 b'0 by simp
    have "b' dvd b" using b by simp
    then have "b' dvd 10 ^ k" using less.prems(2) by (rule dvd_trans)
    then have "b' dvd 10 ^ b'" using less.IH [OF b'lt b'0] by simp
    then have "g * b' dvd 10 * 10 ^ b'" using g10 by (intro mult_dvd_mono)
    then have "b dvd 10 ^ Suc b'" using b by simp
    moreover have "(10::nat) ^ Suc b' dvd 10 ^ b" using b'lt by (intro le_imp_power_dvd) simp
    ultimately show ?thesis by (rule dvd_trans)
  qed
qed

lemma isint_floor: "isint x \<longleftrightarrow> of_int \<lfloor>x\<rfloor> = x"
  by (simp only: isint_def)

lemma isint_iff: "isint x \<longleftrightarrow> (\<exists>n::int. x = of_int n)"
  by (auto simp: isint_def)

lemma fracdigs_finds:
  assumes "k \<le> fuel" and "isint (q * 10 ^ k)"
  shows "isint (q * 10 ^ fracdigs fuel q)"
  using assms
proof (induction fuel q arbitrary: k rule: fracdigs.induct)
  case (1 fuel q)
  show ?case
  proof (cases "fuel = 0 \<or> isint q")
    case True
    then have "fracdigs fuel q = 0" by (subst fracdigs.simps) (simp add: isint_floor)
    moreover have "isint q" using True "1.prems" by auto
    ultimately show ?thesis by simp
  next
    case False
    then have c: "\<not> (fuel = 0 \<or> of_int \<lfloor>q\<rfloor> = q)" by (simp add: isint_floor)
    then have f: "fracdigs fuel q = 1 + fracdigs (fuel - 1) (q * 10)"
      by (subst fracdigs.simps) (simp only: if_False)
    have "k \<noteq> 0" using False "1.prems"(2) by (cases k) auto
    then obtain k' where k: "k = Suc k'" by (cases k) auto
    have "k' \<le> fuel - 1" using "1.prems"(1) k by simp
    moreover have "isint (q * 10 * 10 ^ k')"
      using "1.prems"(2) k by (simp add: mult.assoc)
    ultimately have "isint (q * 10 * 10 ^ fracdigs (fuel - 1) (q * 10))"
      using "1.IH" [OF c] by blast
    then show ?thesis by (simp add: f mult.assoc)
  qed
qed

lemma decimal_bound:
  assumes "isint (q * 10 ^ k)"
  shows "isint (q * 10 ^ nat (snd (quotient_of q)))"
proof -
  obtain a b where ab: "quotient_of q = (a, b)" by (cases "quotient_of q")
  have b0: "0 < b" using quotient_of_denom_pos [OF ab] .
  have cop: "coprime a b" using quotient_of_coprime [OF ab] .
  have q: "q = of_int a / of_int b" using quotient_of_div [OF ab] .
  obtain n :: int where "q * 10 ^ k = of_int n" using assms by (auto simp: isint_iff)
  then have "of_int a / of_int b * 10 ^ k = (of_int n :: rat)" by (simp add: q)
  then have "(of_int a :: rat) * 10 ^ k = of_int n * of_int b" using b0 by (simp add: field_simps)
  then have "(of_int (a * 10 ^ k) :: rat) = of_int (n * b)" by simp
  then have "a * 10 ^ k = n * b" by (simp only: of_int_eq_iff)
  then have "b dvd a * 10 ^ k" by simp
  then have "b dvd 10 ^ k" using cop by (simp add: coprime_commute coprime_dvd_mult_right_iff)
  then have "int (nat b) dvd int (10 ^ k)" using b0 by simp
  then have "nat b dvd 10 ^ k" by (simp only: int_dvd_int_iff)
  then have "nat b dvd 10 ^ nat b" using b0 by (intro dvd_pow10_self [of _ k]) simp_all
  then obtain c where c: "10 ^ nat b = nat b * c" by (auto simp: dvd_def)
  have "q * 10 ^ nat b = of_int a / of_int b * of_nat (10 ^ nat b)" by (simp add: q)
  also have "\<dots> = of_int a / of_int b * (of_int b * of_nat c)" using b0 by (simp add: c)
  also have "\<dots> = of_int (a * int c)" using b0 by simp
  finally have "q * 10 ^ nat b = of_int (a * int c)" .
  then have "\<exists>n::int. q * 10 ^ nat b = of_int n" by (rule exI)
  then show ?thesis unfolding isint_iff ab by simp
qed

lemma isint_abs: "isint x \<Longrightarrow> isint \<bar>x\<bar>"
  unfolding isint_iff by (metis of_int_abs)

lemma is_decimalI:
  assumes "isint (q * 10 ^ k)"
  shows "is_decimal q"
proof -
  have "\<bar>q\<bar> * 10 ^ k = \<bar>q * 10 ^ k\<bar>" by (simp add: abs_mult)
  then have "isint (\<bar>q\<bar> * 10 ^ k)" using isint_abs [OF assms] by simp
  then have "isint (\<bar>q\<bar> * 10 ^ nat (snd (quotient_of \<bar>q\<bar>)))"
    by (rule decimal_bound)
  then have "isint (\<bar>q\<bar> * 10 ^ fracdigs (nat (snd (quotient_of \<bar>q\<bar>))) \<bar>q\<bar>)"
    by (intro fracdigs_finds [of "nat (snd (quotient_of \<bar>q\<bar>))"]) simp_all
  then show ?thesis
    unfolding is_decimal_def Let_def by (simp only: isint_floor)
qed

text \<open>The numbers with an ending decimal expansion are those that a power of ten makes an
  integer: the search of \<open>fracdigs\<close> up to the denominator finds the power.\<close>

lemma is_decimal_iff: "is_decimal q \<longleftrightarrow> (\<exists>k. isint (q * 10 ^ k))"
proof
  assume "is_decimal q"
  then obtain j where j: "isint (\<bar>q\<bar> * 10 ^ j)"
    unfolding is_decimal_def Let_def isint_floor by blast
  then obtain n :: int where n: "\<bar>q\<bar> * 10 ^ j = of_int n" by (auto simp: isint_iff)
  show "\<exists>k. isint (q * 10 ^ k)"
  proof (cases "0 \<le> q")
    case True
    then show ?thesis using j by auto
  next
    case False
    then have "q * 10 ^ j = - (\<bar>q\<bar> * 10 ^ j)" by simp
    also have "\<dots> = of_int (- n)" using n by simp
    finally have "isint (q * 10 ^ j)" unfolding isint_iff by blast
    then show ?thesis by blast
  qed
qed (auto intro: is_decimalI)

lemma is_decimal_minus: "is_decimal (- q) = is_decimal q"
  by (simp add: is_decimal_def)




lemma zero_tok: "''0'' = tok ''0'' [] None" and zero_tok_val: "tok_val ''0'' [] None = 0"
  by (simp_all add: tok_def tok_val_def digits_val_def digit_val_def)

lemma parse_number_to_string:
  assumes "is_decimal q" and "ends_number r"
  shows "parse_number (number_to_string (Fin q) @ r) = Some (Fin q, r)"
proof -
  consider (z) "q = 0" | (n) "q < 0" | (p) "0 < q" by linarith
  then show ?thesis
  proof cases
    case z
    have "parse_number (tok ''0'' [] None @ r) = Some (Fin (tok_val ''0'' [] None), r)"
      by (rule parse_number_tok(1)) (use assms(2) in \<open>simp_all add: is_digit_0\<close>)
    then show ?thesis using z by (simp add: zero_tok_val flip: zero_tok)
  next
    case n
    then have "0 < - q" and "is_decimal (- q)" using assms(1) by (simp_all add: is_decimal_minus)
    from pos_to_string_tok [OF this] obtain ip fp ex where
      t: "pos_to_string (- q) = tok ip fp ex" and "ip \<noteq> []" "\<forall>c\<in>set ip. is_digit c"
      "\<forall>c\<in>set fp. is_digit c" "length ip = 1 \<or> hd ip \<noteq> CHR ''0''" and v: "tok_val ip fp ex = - q"
      by blast
    then have "parse_number (CHR ''-'' # tok ip fp ex @ r) = Some (Fin (- tok_val ip fp ex), r)"
      using assms(2) by (intro parse_number_tok(2))
    then show ?thesis using n by (simp add: t v)
  next
    case p
    from pos_to_string_tok [OF p assms(1)] obtain ip fp ex where
      t: "pos_to_string q = tok ip fp ex" and "ip \<noteq> []" "\<forall>c\<in>set ip. is_digit c"
      "\<forall>c\<in>set fp. is_digit c" "length ip = 1 \<or> hd ip \<noteq> CHR ''0''" and v: "tok_val ip fp ex = q"
      by blast
    then have "parse_number (tok ip fp ex @ r) = Some (Fin (tok_val ip fp ex), r)"
      using assms(2) by (intro parse_number_tok(1))
    then show ?thesis using p by (simp add: t v)
  qed
qed




section \<open>Properties of the record store\<close>

subsection \<open>\<^verbatim>\<open>removeExpense\<close>\<close>

text \<open>
  Claim C10. \<^verbatim>\<open>remove(id)\<close> is idempotent: removing an id twice leaves the state that
  removing it once leaves; and removing an id that no record of the collection carries
  leaves the state as it is.
\<close>

theorem removeExpense_idempotent:
  "removeExpense i (removeExpense i st) = removeExpense i st
   \<and> (i \<notin> id' ` set (expenses st) \<longrightarrow> removeExpense i st = st)"
proof -
  have "filter (\<lambda>e. id' e \<noteq> i) (expenses st) = expenses st" if "i \<notin> id' ` set (expenses st)"
    using that by (induction "expenses st") (auto simp: filter_id_conv)
  then show ?thesis by (simp add: removeExpense_def)
qed

theorem removeExpense_idempotent_witness:
  "''9-z'' \<notin> id' ` set (expenses sample) \<and> removeExpense ''9-z'' sample = sample
   \<and> removeExpense ''9-z'' (removeExpense ''9-z'' sample) = removeExpense ''9-z'' sample"
  using removeExpense_idempotent [of "''9-z''" sample] by (simp add: sample_def)

subsection \<open>\<^verbatim>\<open>addExpense\<close>\<close>

text \<open>
  Claim C4. When the amount text parses to a finite number above zero and the date is not
  empty, \<^verbatim>\<open>addExpense\<close> makes the collection one longer, and the new record is its first
  element, before the records that were there.
\<close>

theorem addExpense_valid:
  assumes "parseFloat (form_amount st) = Fin q" and "0 < q" and "form_date st \<noteq> []"
  shows "length (expenses (addExpense now rnd st)) = length (expenses st) + 1
         \<and> expenses (addExpense now rnd st) = newExpense now rnd st (Fin q) # expenses st"
  using assms by (simp add: addExpense_def isNaN_def)

theorem addExpense_valid_witness:
  "parseFloat (form_amount sample) = Fin (25 / 2) \<and> (0::rat) < 25 / 2 \<and> form_date sample \<noteq> []
   \<and> length (expenses (addExpense 1762041600000 ''0.4fzyo82mvyr'' sample)) = 4
   \<and> expenses (addExpense 1762041600000 ''0.4fzyo82mvyr'' sample) =
       \<lparr>id' = ''1762041600000-4fzyo8'', date = ''2025-11-01'', category = ''Food'',
        amount = Fin (25 / 2), note' = None\<rparr> # expenses sample"
proof -
  have p: "parseFloat (form_amount sample) = Fin (25 / 2)" by code_simp
  have d: "form_date sample \<noteq> []" by (simp add: sample_def)
  have n: "newExpense 1762041600000 ''0.4fzyo82mvyr'' sample (Fin (25 / 2)) =
       \<lparr>id' = ''1762041600000-4fzyo8'', date = ''2025-11-01'', category = ''Food'',
        amount = Fin (25 / 2), note' = None\<rparr>" by code_simp
  have l: "length (expenses sample) = 3" by (simp add: sample_def)
  have "length (expenses (addExpense 1762041600000 ''0.4fzyo82mvyr'' sample)) = length (expenses sample) + 1
         \<and> expenses (addExpense 1762041600000 ''0.4fzyo82mvyr'' sample) =
             newExpense 1762041600000 ''0.4fzyo82mvyr'' sample (Fin (25 / 2)) # expenses sample"
    by (rule addExpense_valid [OF p _ d]) simp
  then show ?thesis
    unfolding n using p d l by simp
qed

text \<open>
  Claim C5. When the amount text does not parse to a number (\<^verbatim>\<open>parseFloat\<close> gives \<open>NaN\<close>),
  or parses to a number that is zero or less, or the date is empty, \<^verbatim>\<open>addExpense\<close> returns
  the state it was given: the collection and the form are unchanged, and nothing is raised
  (the function is total and has no error value).
\<close>

theorem addExpense_invalid:
  assumes "isNaN (parseFloat (form_amount st)) \<or> num_le (parseFloat (form_amount st)) (Fin 0)
           \<or> form_date st = []"
  shows "addExpense now rnd st = st"
  using assms by (auto simp: addExpense_def Let_def)

theorem addExpense_invalid_witness:
  "isNaN (parseFloat (form_amount (sample\<lparr>form_amount := ''abc''\<rparr>)))
   \<and> addExpense 1762041600000 ''0.4fzyo82mvyr'' (sample\<lparr>form_amount := ''abc''\<rparr>)
       = sample\<lparr>form_amount := ''abc''\<rparr>
   \<and> num_le (parseFloat (form_amount (sample\<lparr>form_amount := ''-5''\<rparr>))) (Fin 0)
   \<and> addExpense 1762041600000 ''0.4fzyo82mvyr'' (sample\<lparr>form_amount := ''-5''\<rparr>)
       = sample\<lparr>form_amount := ''-5''\<rparr>
   \<and> form_date (sample\<lparr>form_date := ''''\<rparr>) = []
   \<and> addExpense 1762041600000 ''0.4fzyo82mvyr'' (sample\<lparr>form_date := ''''\<rparr>)
       = sample\<lparr>form_date := ''''\<rparr>"
proof -
  have a: "isNaN (parseFloat (form_amount (sample\<lparr>form_amount := ''abc''\<rparr>)))" by code_simp
  have b: "num_le (parseFloat (form_amount (sample\<lparr>form_amount := ''-5''\<rparr>))) (Fin 0)" by code_simp
  have c: "form_date (sample\<lparr>form_date := ''''\<rparr>) = []" by simp
  note r = addExpense_invalid [of _ 1762041600000 "''0.4fzyo82mvyr''"]
  from a have 1: "addExpense 1762041600000 ''0.4fzyo82mvyr'' (sample\<lparr>form_amount := ''abc''\<rparr>)
       = sample\<lparr>form_amount := ''abc''\<rparr>" by (intro r) blast
  from b have 2: "addExpense 1762041600000 ''0.4fzyo82mvyr'' (sample\<lparr>form_amount := ''-5''\<rparr>)
       = sample\<lparr>form_amount := ''-5''\<rparr>" by (intro r) blast
  from c have 3: "addExpense 1762041600000 ''0.4fzyo82mvyr'' (sample\<lparr>form_date := ''''\<rparr>)
       = sample\<lparr>form_date := ''''\<rparr>" by (intro r) blast
  from a 1 b 2 c 3 show ?thesis by (intro conjI)
qed





section \<open>Properties of the derived view\<close>

lemma foldl_amount_map:
  "foldl (\<lambda>s e. num_add s (amount e)) a es = foldl num_add a (map amount es)"
  by (induction es arbitrary: a) auto

text \<open>
  Claim C3. With the filter \<^verbatim>\<open>"all"\<close> every record passes; with any other filter the
  records that pass are those whose date begins with the seven characters of the filter;
  the records that pass keep the order of the collection; the total is the sum of their
  amounts, added from the left starting at \<open>0\<close>, which is \<open>0\<close> when none passes.
\<close>

theorem derived_view_filter_total:
  "(filterMonth st = ''all'' \<longrightarrow> filteredExpenses st = expenses st)
   \<and> (filterMonth st \<noteq> ''all'' \<longrightarrow>
        filteredExpenses st = filter (\<lambda>e. slice0 7 (date e) = filterMonth st) (expenses st))
   \<and> set (filteredExpenses st) =
       {e \<in> set (expenses st). filterMonth st = ''all'' \<or> slice0 7 (date e) = filterMonth st}
   \<and> subseq (filteredExpenses st) (expenses st)
   \<and> total st = foldl num_add (Fin 0) (map amount (filteredExpenses st))
   \<and> (filteredExpenses st = [] \<longrightarrow> total st = Fin 0)"
  by (auto simp: filteredExpenses_def total_def foldl_amount_map)

theorem derived_view_filter_total_witness:
  "filterMonth sample \<noteq> ''all''
   \<and> filteredExpenses sample = filter (\<lambda>e. slice0 7 (date e) = filterMonth sample) (expenses sample)
   \<and> total sample = Fin (85 / 2)
   \<and> filterMonth (sample\<lparr>filterMonth := ''all''\<rparr>) = ''all''
   \<and> filteredExpenses (sample\<lparr>filterMonth := ''all''\<rparr>) = expenses sample
   \<and> filteredExpenses (sample\<lparr>filterMonth := ''2024-01''\<rparr>) = []
   \<and> total (sample\<lparr>filterMonth := ''2024-01''\<rparr>) = Fin 0"
  using derived_view_filter_total [of sample]
    derived_view_filter_total [of "sample\<lparr>filterMonth := ''all''\<rparr>"]
    derived_view_filter_total [of "sample\<lparr>filterMonth := ''2024-01''\<rparr>"]
  by (simp add: sample_def filteredExpenses_def slice0_def)




subsection \<open>Category subtotals\<close>































section \<open>Properties of the persistence adapter\<close>

text \<open>The parser reads back what \<^verbatim>\<open>JSON.stringify\<close> writes: a quoted string, the properties
  of a record, and an array of records.\<close>

subsection \<open>The bound of the parser\<close>

text \<open>A call of the parser reads at least one character before the next call, so that the
  bound that \<open>JSON_parse\<close> passes, the length of the text and one, never runs out: whatever
  the parser reads with some bound, \<open>JSON_parse\<close> reads.\<close>

lemma length_skip_ws: "length (skip_ws s) \<le> length s"
  by (simp add: skip_ws_def length_dropWhile_le)

lemma cons_result_Some:
  "cons_result c x = Some (t, r) \<Longrightarrow> \<exists>t'. x = Some (t', r)"
  by (auto simp: cons_result_def split: option.splits)

lemma parse_string_consumes: "parse_string s = Some (t, r) \<Longrightarrow> length r < length s"
proof (induction s arbitrary: t rule: parse_string.induct)
  case 1
  then show ?case by simp
next
  case (2 c r0)
  show ?case
  proof (cases "c = dquote")
    case True
    then show ?thesis using "2.prems" by simp
  next
    case nq: False
    show ?thesis
    proof (cases "c = bslash")
      case True
      then obtain e r' where r0: "r0 = e # r'" using "2.prems" nq by (cases r0) auto
      show ?thesis
      proof (cases "e = CHR ''u''")
        case True
        then obtain ch where u: "unhex4 (take 4 r') = Some ch"
          and c: "cons_result ch (parse_string (drop 4 r')) = Some (t, r)"
          using "2.prems" nq \<open>c = bslash\<close> r0 by (auto split: option.splits)
        from cons_result_Some [OF c] obtain t' where "parse_string (drop 4 r') = Some (t', r)" by blast
        then have "length r < length (drop 4 r')"
          using "2.IH"(1) [OF nq \<open>c = bslash\<close> r0 True u] by blast
        then show ?thesis by (simp add: r0)
      next
        case False
        then obtain ch where u: "unescape e = Some ch"
          and c: "cons_result ch (parse_string r') = Some (t, r)"
          using "2.prems" nq \<open>c = bslash\<close> r0 by (auto split: option.splits)
        from cons_result_Some [OF c] obtain t' where "parse_string r' = Some (t', r)" by blast
        then have "length r < length r'"
          using "2.IH"(2) [OF nq \<open>c = bslash\<close> r0 False u] by blast
        then show ?thesis by (simp add: r0)
      qed
    next
      case nb: False
      then have lo: "\<not> (of_char c :: nat) < 32" and c: "cons_result c (parse_string r0) = Some (t, r)"
        using "2.prems" nq by (auto split: if_splits)
      from cons_result_Some [OF c] obtain t' where "parse_string r0 = Some (t', r)" by blast
      then have "length r < length r0" using "2.IH"(3) [OF nq nb lo] by blast
      then show ?thesis by simp
    qed
  qed
qed

lemma json_frac_consumes: "json_frac s = Some (fp, r) \<Longrightarrow> length r \<le> length s"
  by (auto simp: json_frac_def Let_def length_dropWhile_le le_SucI split: list.splits if_splits)

lemma read_sign_length: "read_sign s = (neg, r) \<Longrightarrow> length r \<le> length s"
  by (auto simp: read_sign_def split: list.splits if_splits)

lemma json_exp_consumes: "json_exp s = Some (e, r) \<Longrightarrow> length r \<le> length s"
proof -
  assume a: "json_exp s = Some (e, r)"
  show ?thesis
  proof (cases s)
    case Nil
    then show ?thesis using a by (simp add: json_exp_def)
  next
    case (Cons c t)
    show ?thesis
    proof (cases "is_exp_mark c")
      case True
      obtain neg r' where rs: "read_sign t = (neg, r')" by (cases "read_sign t")
      then have "r = dropWhile is_digit r'"
        using a Cons True by (auto simp: json_exp_def Let_def split: if_splits)
      then have "length r \<le> length r'" by (simp add: length_dropWhile_le)
      then show ?thesis using read_sign_length [OF rs] Cons by simp
    next
      case False
      then show ?thesis using a Cons by (simp add: json_exp_def)
    qed
  qed
qed

lemma parse_number_consumes: "parse_number s = Some (x, r) \<Longrightarrow> length r < length s"
proof -
  assume a: "parse_number s = Some (x, r)"
  define s1 where "s1 = (case s of [] \<Rightarrow> s | c # t \<Rightarrow> if c = CHR ''-'' then t else s)"
  have l1: "length s1 \<le> length s" by (auto simp: s1_def split: list.splits)
  define ip where "ip = takeWhile is_digit s1"
  have pre: "snd (case s of [] \<Rightarrow> (False, s) | c # t \<Rightarrow> if c = CHR ''-'' then (True, t) else (False, s)) = s1"
    by (auto simp: s1_def split: list.splits)
  from a have ne: "ip \<noteq> []"
    by (auto simp: parse_number_def Let_def ip_def s1_def split: prod.splits list.splits if_splits)
  from a obtain fp r2 e where f: "json_frac (dropWhile is_digit s1) = Some (fp, r2)"
    and x: "json_exp r2 = Some (e, r)"
    by (auto simp: parse_number_def Let_def s1_def split: prod.splits list.splits if_splits option.splits)
  have "length (dropWhile is_digit s1) < length s1"
    using ne unfolding ip_def
    by (metis append_Nil length_append takeWhile_dropWhile_id length_greater_0_conv less_add_same_cancel2 add.commute)
  then show ?thesis
    using json_frac_consumes [OF f] json_exp_consumes [OF x] l1 by linarith
qed

lemma parse_literal_consumes:
  "name \<noteq> [] \<Longrightarrow> parse_literal name v s = Some (w, r) \<Longrightarrow> length r < length s"
proof -
  assume n: "name \<noteq> []" and a: "parse_literal name v s = Some (w, r)"
  then have t: "take (length name) s = name" and r: "r = drop (length name) s"
    by (auto simp: parse_literal_def split: if_splits)
  have "length name \<le> length s" using t by (metis length_take min.cobounded1 min.commute)
  then show ?thesis using n r by (cases name) auto
qed

lemma parse_value_open:
  assumes "c = CHR ''{'' \<or> c = CHR ''[''" and "skip_ws rest = d # r'"
    and "c = CHR ''{'' \<longrightarrow> d \<noteq> CHR ''}''" and "c = CHR ''['' \<longrightarrow> d \<noteq> CHR '']''"
  shows "parse_value (Suc n) (c # rest) =
           (if c = CHR ''{'' then parse_members n [] (d # r') else parse_elements n [] (d # r'))"
  using assms by auto

lemma parse_value_leaf:
  assumes "\<not> ((c = CHR ''{'' \<or> c = CHR ''['') \<and> (\<exists>d r'. skip_ws rest = d # r'
              \<and> (c = CHR ''{'' \<longrightarrow> d \<noteq> CHR ''}'') \<and> (c = CHR ''['' \<longrightarrow> d \<noteq> CHR '']'')))"
  shows "parse_value (Suc n) (c # rest) = parse_value (Suc 0) (c # rest)"
  using assms by (cases "skip_ws rest") (auto split: list.splits)

lemma parse_value_leaf_consumes:
  assumes "\<not> ((c = CHR ''{'' \<or> c = CHR ''['') \<and> (\<exists>d r'. skip_ws rest = d # r'
              \<and> (c = CHR ''{'' \<longrightarrow> d \<noteq> CHR ''}'') \<and> (c = CHR ''['' \<longrightarrow> d \<noteq> CHR '']'')))"
    and "parse_value (Suc 0) (c # rest) = Some (v, r)"
  shows "length r < length (c # rest)"
proof -
  have sk: "length r' < length (c # rest)" if "skip_ws rest = d # r'" for d r'
    using length_skip_ws [of rest] that by simp
  show ?thesis
    using assms sk
    by (auto split: list.splits if_splits option.splits
        dest!: parse_string_consumes parse_number_consumes
        dest: parse_literal_consumes [rotated])
qed

lemma step_v:
  assumes "ok_e n" and "ok_m n"
  shows "ok_v (Suc n)"
  unfolding ok_v_def
proof (intro allI impI)
  fix s v r
  assume a: "parse_value (Suc n) s = Some (v, r)"
  then obtain c rest where s: "s = c # rest" by (cases s) auto
  let ?rec = "(c = CHR ''{'' \<or> c = CHR ''['') \<and> (\<exists>d r'. skip_ws rest = d # r'
              \<and> (c = CHR ''{'' \<longrightarrow> d \<noteq> CHR ''}'') \<and> (c = CHR ''['' \<longrightarrow> d \<noteq> CHR '']''))"
  show "length r < length s \<and> (\<forall>m. length s - length r \<le> m \<longrightarrow> parse_value m s = Some (v, r))"
  proof (cases ?rec)
    case False
    have l0: "parse_value (Suc 0) (c # rest) = Some (v, r)"
      using a parse_value_leaf [OF False, of n] by (simp add: s)
    have len: "length r < length s"
      using parse_value_leaf_consumes [OF False l0] by (simp add: s)
    have "parse_value m s = Some (v, r)" if le: "length s - length r \<le> m" for m
    proof -
      obtain m' where "m = Suc m'" using le len by (cases m) auto
      then show ?thesis using parse_value_leaf [OF False, of m'] l0 by (simp add: s)
    qed
    then show ?thesis using len by blast
  next
    case True
    then obtain d r' where c: "c = CHR ''{'' \<or> c = CHR ''[''" and sk: "skip_ws rest = d # r'"
      and d1: "c = CHR ''{'' \<longrightarrow> d \<noteq> CHR ''}''" and d2: "c = CHR ''['' \<longrightarrow> d \<noteq> CHR '']''"
      by blast
    note opn = parse_value_open [OF c sk d1 d2]
    have lsk: "length (d # r') \<le> length rest" using length_skip_ws [of rest] sk by simp
    show ?thesis
    proof (cases "c = CHR ''{''")
      case True
      then have pm: "parse_members n [] (d # r') = Some (v, r)" using a opn [of n] by (simp add: s)
      then have len: "length r < length (d # r')"
        and up: "\<And>m. length (d # r') - length r \<le> m \<Longrightarrow> parse_members m [] (d # r') = Some (v, r)"
        using assms(2) unfolding ok_m_def by blast+
      have "parse_value m s = Some (v, r)" if le: "length s - length r \<le> m" for m
      proof -
        obtain m' where m: "m = Suc m'" using le len lsk by (cases m) (auto simp: s)
        have "length (d # r') - length r \<le> m'" using le lsk m by (simp add: s)
        then show ?thesis using up opn [of m'] True by (simp add: s m)
      qed
      then show ?thesis using len lsk by (auto simp: s)
    next
      case False
      then have pm: "parse_elements n [] (d # r') = Some (v, r)" using a opn [of n] by (simp add: s)
      then have len: "length r < length (d # r')"
        and up: "\<And>m. length (d # r') - length r \<le> m \<Longrightarrow> parse_elements m [] (d # r') = Some (v, r)"
        using assms(1) unfolding ok_e_def by blast+
      have "parse_value m s = Some (v, r)" if le: "length s - length r \<le> m" for m
      proof -
        obtain m' where m: "m = Suc m'" using le len lsk by (cases m) (auto simp: s)
        have "length (d # r') - length r \<le> m'" using le lsk m by (simp add: s)
        then show ?thesis using up opn [of m'] False by (simp add: s m)
      qed
      then show ?thesis using len lsk by (auto simp: s)
    qed
  qed
qed

lemma parse_elements_Suc:
  assumes "parse_value n s = Some (v1, r1)" and "skip_ws r1 = d # r'"
  shows "parse_elements (Suc n) acc s =
           (if d = CHR '','' then parse_elements n (acc @ [v1]) (skip_ws r')
            else if d = CHR '']'' then Some (JArr (acc @ [v1]), r') else None)"
  using assms by simp

lemma parse_elements_SomeD:
  assumes "parse_elements (Suc n) acc s = Some (v, r)"
  shows "\<exists>v1 r1 d r'. parse_value n s = Some (v1, r1) \<and> skip_ws r1 = d # r'"
  using assms by (auto split: option.splits list.splits)

lemma step_e:
  assumes "ok_v n" and "ok_e n"
  shows "ok_e (Suc n)"
  unfolding ok_e_def
proof (intro allI impI)
  fix acc s v r
  assume a: "parse_elements (Suc n) acc s = Some (v, r)"
  from parse_elements_SomeD [OF a] obtain v1 r1 d r' where
    pv: "parse_value n s = Some (v1, r1)" and sk: "skip_ws r1 = d # r'" by blast
  note unf = parse_elements_Suc [OF _ sk]
  have l1: "length r1 < length s"
    and up1: "\<And>m. length s - length r1 \<le> m \<Longrightarrow> parse_value m s = Some (v1, r1)"
    using assms(1) pv unfolding ok_v_def by blast+
  have lsk: "Suc (length r') \<le> length r1" using length_skip_ws [of r1] sk by simp
  have lsk2: "length (skip_ws r') \<le> length r'" by (rule length_skip_ws)
  show "length r < length s \<and> (\<forall>m. length s - length r \<le> m \<longrightarrow> parse_elements m acc s = Some (v, r))"
  proof (cases "d = CHR '',''")
    case True
    then have pe: "parse_elements n (acc @ [v1]) (skip_ws r') = Some (v, r)"
      using a unf [OF pv, of acc] by simp
    then have l2: "length r < length (skip_ws r')"
      and up2: "\<And>m. length (skip_ws r') - length r \<le> m \<Longrightarrow>
                  parse_elements m (acc @ [v1]) (skip_ws r') = Some (v, r)"
      using assms(2) unfolding ok_e_def by blast+
    have len: "length r < length s" using l1 l2 lsk lsk2 by linarith
    have "parse_elements m acc s = Some (v, r)" if le: "length s - length r \<le> m" for m
    proof -
      obtain m' where m: "m = Suc m'" using le len by (cases m) auto
      have 1: "length s - length r1 \<le> m'" using le m l1 l2 lsk lsk2 by linarith
      have 2: "length (skip_ws r') - length r \<le> m'" using le m l1 l2 lsk lsk2 by linarith
      show ?thesis
        unfolding m using unf [OF up1 [OF 1], of acc] up2 [OF 2] True by simp
    qed
    then show ?thesis using len by blast
  next
    case False
    then have d: "d = CHR '']''" and r: "r = r'" and v: "v = JArr (acc @ [v1])"
      using a unf [OF pv, of acc] by (auto split: if_splits)
    have len: "length r < length s" using l1 lsk unfolding r by linarith
    have "parse_elements m acc s = Some (v, r)" if le: "length s - length r \<le> m" for m
    proof -
      obtain m' where m: "m = Suc m'" using le len by (cases m) auto
      have 1: "length s - length r1 \<le> m'" using le m l1 lsk unfolding r by linarith
      show ?thesis
        unfolding m using unf [OF up1 [OF 1], of acc] d r v by simp
    qed
    then show ?thesis using len by blast
  qed
qed

lemma parse_members_SomeD:
  assumes "parse_members (Suc n) acc s = Some (v, r)"
  shows "\<exists>t k r1 r2 v1 r3 d r4. s = dquote # t \<and> parse_string t = Some (k, r1)
           \<and> skip_ws r1 = CHR '':'' # r2 \<and> parse_value n (skip_ws r2) = Some (v1, r3)
           \<and> skip_ws r3 = d # r4"
  using assms by (auto split: option.splits list.splits if_splits)

lemma parse_members_Suc:
  assumes "parse_string t = Some (k, r1)" and "skip_ws r1 = CHR '':'' # r2"
    and "parse_value n (skip_ws r2) = Some (v1, r3)" and "skip_ws r3 = d # r4"
  shows "parse_members (Suc n) acc (dquote # t) =
           (if d = CHR '','' then parse_members n (map_set k v1 acc) (skip_ws r4)
            else if d = CHR ''}'' then Some (JObj (map_set k v1 acc), r4) else None)"
  using assms by simp

lemma step_m:
  assumes "ok_v n" and "ok_m n"
  shows "ok_m (Suc n)"
  unfolding ok_m_def
proof (intro allI impI)
  fix acc s v r
  assume a: "parse_members (Suc n) acc s = Some (v, r)"
  from parse_members_SomeD [OF a] obtain t k r1 r2 v1 r3 d r4 where
    s: "s = dquote # t" and ps: "parse_string t = Some (k, r1)"
    and sk1: "skip_ws r1 = CHR '':'' # r2" and pv: "parse_value n (skip_ws r2) = Some (v1, r3)"
    and sk3: "skip_ws r3 = d # r4" by blast
  note unf = parse_members_Suc [OF ps sk1 _ sk3]
  have l3: "length r3 < length (skip_ws r2)"
    and up1: "\<And>m. length (skip_ws r2) - length r3 \<le> m \<Longrightarrow> parse_value m (skip_ws r2) = Some (v1, r3)"
    using assms(1) pv unfolding ok_v_def by blast+
  have c1: "length r1 < length t" by (rule parse_string_consumes [OF ps])
  have c2: "Suc (length r2) \<le> length r1" using length_skip_ws [of r1] sk1 by simp
  have c3: "length (skip_ws r2) \<le> length r2" by (rule length_skip_ws)
  have c4: "Suc (length r4) \<le> length r3" using length_skip_ws [of r3] sk3 by simp
  have c5: "length (skip_ws r4) \<le> length r4" by (rule length_skip_ws)
  have ls: "length s = Suc (length t)" by (simp add: s)
  show "length r < length s \<and> (\<forall>m. length s - length r \<le> m \<longrightarrow> parse_members m acc s = Some (v, r))"
  proof (cases "d = CHR '',''")
    case True
    then have pe: "parse_members n (map_set k v1 acc) (skip_ws r4) = Some (v, r)"
      using a unf [OF pv, of acc] by (simp add: s)
    then have l2: "length r < length (skip_ws r4)"
      and up2: "\<And>m. length (skip_ws r4) - length r \<le> m \<Longrightarrow>
                  parse_members m (map_set k v1 acc) (skip_ws r4) = Some (v, r)"
      using assms(2) unfolding ok_m_def by blast+
    have len: "length r < length s" using l2 l3 c1 c2 c3 c4 c5 ls by linarith
    have "parse_members m acc s = Some (v, r)" if le: "length s - length r \<le> m" for m
    proof -
      obtain m' where m: "m = Suc m'" using le len by (cases m) auto
      have 1: "length (skip_ws r2) - length r3 \<le> m'" using le m l2 l3 c1 c2 c3 c4 c5 ls by linarith
      have 2: "length (skip_ws r4) - length r \<le> m'" using le m l2 l3 c1 c2 c3 c4 c5 ls by linarith
      show ?thesis
        unfolding m s using unf [OF up1 [OF 1], of acc] up2 [OF 2] True by simp
    qed
    then show ?thesis using len by blast
  next
    case False
    then have d: "d = CHR ''}''" and r: "r = r4" and v: "v = JObj (map_set k v1 acc)"
      using a unf [OF pv, of acc] by (auto simp: s split: if_splits)
    have len: "length r < length s" using l3 c1 c2 c3 c4 ls unfolding r by linarith
    have "parse_members m acc s = Some (v, r)" if le: "length s - length r \<le> m" for m
    proof -
      obtain m' where m: "m = Suc m'" using le len by (cases m) auto
      have 1: "length (skip_ws r2) - length r3 \<le> m'"
        using le m l3 c1 c2 c3 c4 ls unfolding r by linarith
      show ?thesis
        unfolding m s using unf [OF up1 [OF 1], of acc] d r v by simp
    qed
    then show ?thesis using len by blast
  qed
qed

lemma ok_all: "ok_v n \<and> ok_e n \<and> ok_m n"
proof (induction n)
  case 0
  show ?case by (simp add: ok_v_def ok_e_def ok_m_def)
next
  case (Suc n)
  then show ?case using step_v step_e step_m by blast
qed

lemma parse_value_enough:
  assumes "parse_value n s = Some (v, r)"
  shows "parse_value (Suc (length s)) s = Some (v, r)"
proof -
  have "ok_v n" using ok_all by blast
  then have "\<forall>m. length s - length r \<le> m \<longrightarrow> parse_value m s = Some (v, r)"
    using assms unfolding ok_v_def by blast
  moreover have "length s - length r \<le> Suc (length s)" by simp
  ultimately show ?thesis by blast
qed

lemma JSON_parse_enough:
  assumes "parse_value n (skip_ws s) = Some (v, r)" and "skip_ws r = []"
  shows "JSON_parse s = Some v"
proof -
  have "ok_v n" using ok_all by blast
  then have "\<forall>m. length (skip_ws s) - length r \<le> m \<longrightarrow> parse_value m (skip_ws s) = Some (v, r)"
    using assms(1) unfolding ok_v_def by blast
  moreover have "length (skip_ws s) - length r \<le> Suc (length s)"
    using length_skip_ws [of s] by linarith
  ultimately have "parse_value (Suc (length s)) (skip_ws s) = Some (v, r)" by blast
  then show ?thesis using assms(2) by (simp add: JSON_parse_def)
qed

subsection \<open>Reading back what was written\<close>

lemma hex_val_hex_char: "d < 16 \<Longrightarrow> hex_val (hex_char d) = Some d"
proof -
  assume "d < 16"
  then consider "d < 10" | "10 \<le> d" "d < 16" by linarith
  then show ?thesis
    by cases (auto simp: hex_val_def hex_char_def Let_def)
qed

lemma hex_val_0: "hex_val (CHR ''0'') = Some 0"
  by (simp add: hex_val_def)

lemma unhex4_low:
  assumes "(of_char c :: nat) < 32"
  shows "unhex4 [CHR ''0'', CHR ''0'', hex_char (of_char c div 16), hex_char (of_char c mod 16)] = Some c"
proof -
  let ?n = "of_char c :: nat"
  have "?n div 16 < 16" "?n mod 16 < 16" using assms by auto
  then have "map hex_val [CHR ''0'', CHR ''0'', hex_char (?n div 16), hex_char (?n mod 16)]
      = [Some 0, Some 0, Some (?n div 16), Some (?n mod 16)]"
    by (simp add: hex_val_hex_char hex_val_0)
  moreover have "?n div 16 * 16 + ?n mod 16 = ?n" by simp
  ultimately show ?thesis using assms by (simp add: unhex4_def)
qed

lemma char_of_of_char_eq: "(of_char c :: nat) = n \<Longrightarrow> char_of n = c"
  by auto

lemma parse_string_quote_char:
  "parse_string (quote_char c @ r) = cons_result c (parse_string r)"
proof -
  let ?n = "of_char c :: nat"
  have bq: "bslash \<noteq> dquote" by (simp add: bslash_def dquote_def)
  consider (b) "?n = 8" | (t) "?n = 9" | (n) "?n = 10" | (f) "?n = 12" | (r) "?n = 13"
    | (q) "c = dquote" | (s) "c = bslash"
    | (u) "?n < 32" "?n \<noteq> 8" "?n \<noteq> 9" "?n \<noteq> 10" "?n \<noteq> 12" "?n \<noteq> 13"
    | (o) "\<not> ?n < 32" "c \<noteq> dquote" "c \<noteq> bslash"
    by fastforce
  then show ?thesis
  proof cases
    case b
    then show ?thesis using bq char_of_of_char_eq [OF b]
      by (simp add: quote_char_def unescape_def dquote_def bslash_def)
  next
    case t
    then show ?thesis using bq char_of_of_char_eq [OF t]
      by (simp add: quote_char_def unescape_def dquote_def bslash_def)
  next
    case n
    then show ?thesis using bq char_of_of_char_eq [OF n]
      by (simp add: quote_char_def unescape_def dquote_def bslash_def)
  next
    case f
    then show ?thesis using bq char_of_of_char_eq [OF f]
      by (simp add: quote_char_def unescape_def dquote_def bslash_def)
  next
    case r
    then show ?thesis using bq char_of_of_char_eq [OF r]
      by (simp add: quote_char_def unescape_def dquote_def bslash_def)
  next
    case q
    then show ?thesis
      by (simp add: quote_char_def unescape_def dquote_def bslash_def)
  next
    case s
    then show ?thesis
      by (simp add: quote_char_def unescape_def dquote_def bslash_def)
  next
    case u
    have c: "c \<noteq> dquote" "c \<noteq> bslash" using u(1) by (auto simp: dquote_def bslash_def)
    have "quote_char c = [bslash, CHR ''u'', CHR ''0'', CHR ''0'', hex_char (?n div 16), hex_char (?n mod 16)]"
      using u c by (simp add: quote_char_def Let_def)
    then show ?thesis using bq unhex4_low [OF u(1)] by simp
  next
    case o
    then have "quote_char c = [c]"
      by (auto simp: quote_char_def Let_def)
    then show ?thesis using o by simp
  qed
qed

lemma parse_string_quoted:
  "parse_string (concat (map quote_char s) @ dquote # r) = Some (s, r)"
  by (induction s) (simp_all add: parse_string_quote_char cons_result_def)

lemma skip_ws_Cons: "\<not> is_json_ws c \<Longrightarrow> skip_ws (c # r) = c # r"
  by (simp add: skip_ws_def)

lemma skip_ws_Nil: "skip_ws [] = []"
  by (simp add: skip_ws_def)

lemma not_ws_chars:
  "\<not> is_json_ws dquote" "\<not> is_json_ws (CHR '':'')" "\<not> is_json_ws (CHR '','')"
  "\<not> is_json_ws (CHR ''}'')" "\<not> is_json_ws (CHR '']'')" "\<not> is_json_ws (CHR ''{'')"
  "\<not> is_json_ws (CHR ''['')" "\<not> is_json_ws (CHR ''-'')"
  by (simp_all add: is_json_ws_def dquote_def)

lemma digit_not_json:
  assumes "is_digit c"
  shows "\<not> is_json_ws c" "c \<noteq> CHR ''{''" "c \<noteq> CHR ''[''" "c \<noteq> dquote" "c \<noteq> CHR ''t''"
    "c \<noteq> CHR ''f''" "c \<noteq> CHR ''n''"
  using assms by (auto simp: is_digit_def is_json_ws_def dquote_def)

lemma dquote_neq:
  "dquote \<noteq> CHR ''{''" "dquote \<noteq> CHR ''[''" "dquote \<noteq> CHR ''}''" "dquote \<noteq> CHR '']''"
  "dquote \<noteq> CHR '':''" "dquote \<noteq> CHR '',''"
  by (simp_all add: dquote_def)

text \<open>The first character of the text of a number.\<close>

lemma number_to_string_hd:
  assumes "is_decimal q"
  shows "\<exists>c t. number_to_string (Fin q) = c # t \<and> (is_digit c \<or> c = CHR ''-'')"
proof -
  consider (z) "q = 0" | (n) "q < 0" | (p) "0 < q" by linarith
  then show ?thesis
  proof cases
    case z
    then show ?thesis by (simp add: is_digit_0)
  next
    case n
    then show ?thesis by simp
  next
    case p
    from pos_to_string_tok [OF p assms] obtain ip fp ex where
      t: "pos_to_string q = tok ip fp ex" and "ip \<noteq> []" "\<forall>c\<in>set ip. is_digit c" by blast
    then obtain c u where "ip = c # u" "is_digit c" by (cases ip) auto
    then show ?thesis using p t by (simp add: tok_def)
  qed
qed

lemma ends_number_delim: "ends_number (CHR '','' # r)" "ends_number (CHR ''}'' # r)"
  by (simp_all add: ends_number_def is_digit_def is_exp_mark_def)

lemma delim_ends: "delim r \<Longrightarrow> ends_number r"
  by (cases r) (auto simp: delim_def ends_number_delim)

lemma parse_value_prim:
  assumes "prim v" and "delim r"
  shows "parse_value (Suc m) (JSON_stringify v @ r) = Some (v, r)"
proof (cases v)
  case (JStr s)
  then show ?thesis
    by (simp add: quote_def dquote_neq parse_string_quoted)
next
  case (JNum x)
  then obtain q where x: "x = Fin q" and d: "is_decimal q" using assms(1) by (cases x) auto
  from number_to_string_hd [OF d] obtain c t where
    ct: "number_to_string (Fin q) = c # t" and c: "is_digit c \<or> c = CHR ''-''" by blast
  have p: "parse_number (number_to_string (Fin q) @ r) = Some (Fin q, r)"
    by (rule parse_number_to_string [OF d delim_ends [OF assms(2)]])
  have n: "c \<noteq> CHR ''{''" "c \<noteq> CHR ''[''" "c \<noteq> dquote" "c \<noteq> CHR ''t''" "c \<noteq> CHR ''f''" "c \<noteq> CHR ''n''"
    using c digit_not_json [of c] by (auto simp: dquote_def)
  show ?thesis
    using p n unfolding JNum x by (simp add: ct del: number_to_string.simps)
qed (use assms in auto)

lemma stringify_prim_hd:
  assumes "prim v"
  shows "\<exists>c t. JSON_stringify v = c # t \<and> \<not> is_json_ws c"
proof (cases v)
  case (JStr s)
  then show ?thesis by (simp add: quote_def not_ws_chars)
next
  case (JNum x)
  then obtain q where x: "x = Fin q" and d: "is_decimal q" using assms(1) by (cases x) auto
  from number_to_string_hd [OF d] obtain c t where
    "number_to_string (Fin q) = c # t" "is_digit c \<or> c = CHR ''-''" by blast
  then show ?thesis
    using digit_not_json(1) [of c] not_ws_chars unfolding JNum x
    by (auto simp del: number_to_string.simps)
qed (use assms in auto)

lemma join_Cons: "join (x # xs) = x @ (if xs = [] then [] else CHR '','' # join xs)"
  by (cases xs) simp_all

lemma member_text_hd: "\<exists>t. member_text p = dquote # t"
  by (simp add: member_text_def quote_def)

lemma join_members_hd: "ps \<noteq> [] \<Longrightarrow> \<exists>t. join (map member_text ps) = dquote # t"
proof -
  assume "ps \<noteq> []"
  then obtain p ps' where ps: "ps = p # ps'" by (cases ps) auto
  obtain t where "member_text p = dquote # t" using member_text_hd by blast
  then show ?thesis by (simp add: ps join_Cons)
qed

lemma stringify_JObj:
  "JSON_stringify (JObj ps) = CHR ''{'' # join (map member_text ps) @ ''}''"
  by (simp add: member_text_def [abs_def] case_prod_unfold)

lemma parse_members_flat:
  assumes "ps \<noteq> []" and "list_all (\<lambda>p. prim (snd p)) ps" and "length ps < n"
  shows "parse_members n acc (join (map member_text ps) @ CHR ''}'' # r)
         = Some (JObj (foldl (\<lambda>a p. map_set (fst p) (snd p) a) acc ps), r)"
  using assms
proof (induction ps arbitrary: acc n)
  case Nil
  then show ?case by simp
next
  case (Cons p ps)
  obtain k v where p: "p = (k, v)" by (cases p)
  have pv: "prim v" using Cons.prems(2) p by simp
  obtain m where n: "n = Suc m" and m: "length ps < m" "0 < m"
    using Cons.prems(3) by (cases n) auto
  obtain m' where m': "m = Suc m'" using m(2) by (cases m) auto
  let ?rest = "(if ps = [] then [] else CHR '','' # join (map member_text ps)) @ CHR ''}'' # r"
  have tx: "join (map member_text (p # ps)) @ CHR ''}'' # r
      = dquote # concat (map quote_char k) @ dquote # CHR '':'' # JSON_stringify v @ ?rest"
    by (simp add: join_Cons member_text_def quote_def p)
  obtain c t where ct: "JSON_stringify v = c # t" and c: "\<not> is_json_ws c"
    using stringify_prim_hd [OF pv] by blast
  have dl: "delim ?rest" by (simp add: delim_def)
  have pvv: "parse_value m (JSON_stringify v @ ?rest) = Some (v, ?rest)"
    unfolding m' by (rule parse_value_prim [OF pv dl])
  have sk: "skip_ws (JSON_stringify v @ ?rest) = JSON_stringify v @ ?rest"
    by (simp add: ct skip_ws_Cons [OF c])
  show ?case
  proof (cases "ps = []")
    case True
    show ?thesis
      unfolding tx n
      using True pvv sk
      by (simp add: parse_string_quoted skip_ws_Cons not_ws_chars p)
  next
    case False
    obtain u where u: "join (map member_text ps) = dquote # u"
      using join_members_hd [OF False] by blast
    have ih: "parse_members m (map_set k v acc) (join (map member_text ps) @ CHR ''}'' # r)
        = Some (JObj (foldl (\<lambda>a p. map_set (fst p) (snd p) a) (map_set k v acc) ps), r)"
      using Cons.prems(2) m(1) by (intro Cons.IH [OF False]) simp_all
    have sk2: "skip_ws (join (map member_text ps) @ CHR ''}'' # r) = join (map member_text ps) @ CHR ''}'' # r"
      by (simp add: u skip_ws_Cons not_ws_chars)
    show ?thesis
      unfolding tx n
      using False pvv sk sk2 ih
      by (simp add: parse_string_quoted skip_ws_Cons not_ws_chars p)
  qed
qed

lemma map_set_fresh: "k \<notin> fst ` set acc \<Longrightarrow> map_set k v acc = acc @ [(k, v)]"
  by (induction acc) auto

lemma foldl_map_set_distinct:
  "distinct (map fst (acc @ ps)) \<Longrightarrow> foldl (\<lambda>a p. map_set (fst p) (snd p) a) acc ps = acc @ ps"
proof (induction ps arbitrary: acc)
  case Nil
  then show ?case by simp
next
  case (Cons p ps)
  have "fst p \<notin> fst ` set acc" using Cons.prems by auto
  then have "map_set (fst p) (snd p) acc = acc @ [p]" by (simp add: map_set_fresh)
  moreover have "distinct (map fst ((acc @ [p]) @ ps))" using Cons.prems by simp
  ultimately show ?case using Cons.IH [of "acc @ [p]"] by simp
qed

lemma parse_value_flat:
  assumes "flat v" and "6 \<le> n"
  shows "parse_value (Suc n) (JSON_stringify v @ r) = Some (v, r)"
proof -
  from assms(1) obtain ps where v: "v = JObj ps" and ps: "ps \<noteq> []" "length ps \<le> 5"
    "distinct (map fst ps)" "list_all (\<lambda>p. prim (snd p)) ps"
    by (cases v) (auto simp: flat_def)
  obtain u where u: "join (map member_text ps) = dquote # u"
    using join_members_hd [OF ps(1)] by blast
  have t: "JSON_stringify v @ r = CHR ''{'' # join (map member_text ps) @ CHR ''}'' # r"
    unfolding v stringify_JObj by simp
  have "length ps < n" using ps(2) assms(2) by simp
  then have "parse_members n [] (join (map member_text ps) @ CHR ''}'' # r)
      = Some (JObj (foldl (\<lambda>a p. map_set (fst p) (snd p) a) [] ps), r)"
    by (intro parse_members_flat ps)
  then have pm: "parse_members n [] (dquote # u @ CHR ''}'' # r) = Some (JObj ps, r)"
    using foldl_map_set_distinct [of "[]" ps] ps(3) by (simp add: u)
  show ?thesis
    unfolding t u using pm by (simp add: skip_ws_Cons not_ws_chars dquote_neq v)
qed

lemma stringify_flat_hd: "flat v \<Longrightarrow> \<exists>t. JSON_stringify v = CHR ''{'' # t"
  by (cases v) (auto simp: flat_def stringify_JObj simp del: JSON_stringify.simps)

lemma parse_elements_flat:
  assumes "vs \<noteq> []" and "list_all flat vs" and "length vs + 6 < n"
  shows "parse_elements n acc (join (map JSON_stringify vs) @ CHR '']'' # r) = Some (JArr (acc @ vs), r)"
  using assms
proof (induction vs arbitrary: acc n)
  case Nil
  then show ?case by simp
next
  case (Cons v vs)
  have fv: "flat v" using Cons.prems(2) by simp
  obtain m where n: "n = Suc m" and m: "length vs + 6 < m" using Cons.prems(3) by (cases n) auto
  obtain m' where m': "m = Suc m'" and m'6: "6 \<le> m'" using m by (cases m) auto
  let ?rest = "(if vs = [] then [] else CHR '','' # join (map JSON_stringify vs)) @ CHR '']'' # r"
  have tx: "join (map JSON_stringify (v # vs)) @ CHR '']'' # r = JSON_stringify v @ ?rest"
    by (simp add: join_Cons)
  have pv: "parse_value m (JSON_stringify v @ ?rest) = Some (v, ?rest)"
    unfolding m' by (rule parse_value_flat [OF fv m'6])
  show ?case
  proof (cases "vs = []")
    case True
    show ?thesis unfolding tx n using True pv by (simp add: skip_ws_Cons not_ws_chars)
  next
    case False
    then obtain w ws where vs: "vs = w # ws" by (cases vs) auto
    have "flat w" using Cons.prems(2) vs by simp
    then obtain u where u: "JSON_stringify w = CHR ''{'' # u" using stringify_flat_hd by blast
    have sk: "skip_ws (join (map JSON_stringify vs) @ CHR '']'' # r) = join (map JSON_stringify vs) @ CHR '']'' # r"
      by (simp add: vs join_Cons u skip_ws_Cons not_ws_chars)
    have ih: "parse_elements m (acc @ [v]) (join (map JSON_stringify vs) @ CHR '']'' # r)
        = Some (JArr ((acc @ [v]) @ vs), r)"
      using Cons.prems(2) m by (intro Cons.IH [OF False]) simp_all
    show ?thesis unfolding tx n using False pv sk ih by (simp add: skip_ws_Cons not_ws_chars)
  qed
qed

lemma toJSON_members:
  "\<exists>ps. toJSON e = JObj ((''id'', JStr (id' e)) # ps) \<and> length ps \<le> 4
        \<and> map fst ps = [''date'', ''category'', ''amount''] @ (case note' e of None \<Rightarrow> [] | Some t \<Rightarrow> [''note''])
        \<and> (well_formed e \<longrightarrow> list_all (\<lambda>p. prim (snd p)) ps)"
  by (cases "amount e"; cases "note' e") (auto simp: toJSON_def well_formed_def)

lemma flat_toJSON: "well_formed e \<Longrightarrow> flat (toJSON e)"
proof -
  assume wf: "well_formed e"
  from toJSON_members [of e] obtain ps where
    t: "toJSON e = JObj ((''id'', JStr (id' e)) # ps)" and l: "length ps \<le> 4"
    and k: "map fst ps = [''date'', ''category'', ''amount''] @ (case note' e of None \<Rightarrow> [] | Some t \<Rightarrow> [''note''])"
    and p: "list_all (\<lambda>p. prim (snd p)) ps" using wf by blast
  have "distinct (''id'' # map fst ps)" unfolding k by (cases "note' e") auto
  then show ?thesis using l p by (simp add: t flat_def)
qed

lemma asExpense_toJSON: "asExpense (toJSON e) = Some e"
  by (cases "note' e") (simp_all add: asExpense_def toJSON_def)

lemma length_quote: "2 \<le> length (quote s)"
  by (simp add: quote_def)

lemma length_join_first: "length x \<le> length (join (x # xs))"
  by (simp add: join_Cons)

lemma length_stringify_toJSON: "7 \<le> length (JSON_stringify (toJSON e))"
proof -
  from toJSON_members [of e] obtain ps where
    t: "toJSON e = JObj ((''id'', JStr (id' e)) # ps)" by blast
  have "length (member_text (''id'', JStr (id' e))) = length (quote ''id'') + 1 + length (quote (id' e))"
    by (simp add: member_text_def)
  then have "5 \<le> length (member_text (''id'', JStr (id' e)))"
    using length_quote [of "''id''"] length_quote [of "id' e"] by linarith
  then have "5 \<le> length (join (map member_text ((''id'', JStr (id' e)) # ps)))"
    using length_join_first [of "member_text (''id'', JStr (id' e))" "map member_text ps"] by simp
  then show ?thesis unfolding t stringify_JObj by simp
qed

lemma length_join_ge: "\<forall>t\<in>set ts. k \<le> length t \<Longrightarrow> k * length ts \<le> length (join ts)"
proof (induction ts)
  case Nil
  then show ?case by simp
next
  case (Cons t ts)
  then have "k * length ts \<le> length (join ts)" and "k \<le> length t" by simp_all
  then show ?case by (simp add: join_Cons)
qed

lemma parse_value_array:
  "parse_value (Suc n) (CHR ''['' # CHR ''{'' # w) = parse_elements n [] (CHR ''{'' # w)"
  by (simp add: skip_ws_Cons not_ws_chars)

lemma JSON_parse_save:
  assumes "list_all well_formed rs"
  shows "JSON_parse (save rs) = Some (JArr (map toJSON rs))"
proof (cases "rs = []")
  case True
  then show ?thesis
    by (simp add: save_def JSON_parse_def skip_ws_Cons skip_ws_Nil not_ws_chars)
next
  case False
  define vs where "vs = map toJSON rs"
  define j where "j = join (map JSON_stringify vs)"
  have s: "save rs = CHR ''['' # j @ '']''" by (simp add: save_def j_def vs_def)
  have vs: "vs \<noteq> []" using False by (simp add: vs_def)
  have fl: "list_all flat vs" using assms by (simp add: list_all_iff flat_toJSON vs_def)
  obtain v vs' where vv: "vs = v # vs'" using vs by (cases vs) auto
  then have "flat v" using fl by simp
  then obtain u where u: "JSON_stringify v = CHR ''{'' # u"
    using stringify_flat_hd by blast
  obtain w where w: "j @ '']'' = CHR ''{'' # w"
    by (simp add: j_def vv join_Cons u)
  have "\<forall>t\<in>set (map JSON_stringify vs). 7 \<le> length t"
    by (auto simp: vs_def length_stringify_toJSON)
  then have "7 * length (map JSON_stringify vs) \<le> length j"
    unfolding j_def by (rule length_join_ge)
  then have len: "length vs + 6 < length (save rs)" using vs unfolding s by (cases vs) simp_all
  have "parse_elements (length (save rs)) [] (j @ CHR '']'' # []) = Some (JArr ([] @ vs), [])"
    unfolding j_def by (rule parse_elements_flat [OF vs fl len])
  then have pe: "parse_elements (length (save rs)) [] (CHR ''{'' # w) = Some (JArr vs, [])"
    by (simp add: w)
  have s2: "save rs = CHR ''['' # CHR ''{'' # w" using s w by simp
  have "parse_value (Suc (length (save rs))) (CHR ''['' # CHR ''{'' # w) = Some (JArr vs, [])"
    by (simp only: parse_value_array pe)
  then have "parse_value (Suc (length (save rs))) (save rs) = Some (JArr vs, [])"
    by (simp only: s2 [symmetric])
  moreover have "skip_ws (save rs) = save rs" by (simp add: s2 skip_ws_Cons not_ws_chars)
  ultimately show ?thesis by (simp add: JSON_parse_def skip_ws_Nil vs_def)
qed

lemma save_nonempty: "save rs \<noteq> []"
  by (simp add: save_def)

lemma load_save:
  assumes "list_all well_formed rs"
  shows "load (Some (save rs)) = map toJSON rs"
  by (simp add: load_def save_nonempty JSON_parse_save [OF assms])

text \<open>
  Claim C1. For every collection of well-formed records, the empty one included, loading
  the text that the persist effect saved gives the array of the records as
  \<^verbatim>\<open>JSON.stringify\<close> sees them, with no element added, dropped or changed, and read as
  records its elements are the records that were saved, in their order.
\<close>

theorem persistence_round_trip:
  assumes "list_all well_formed rs"
  shows "load (Some (save rs)) = map toJSON rs
         \<and> map asExpense (load (Some (save rs))) = map Some rs"
  by (simp add: load_save [OF assms] asExpense_toJSON)

lemma sample_facts:
  "positive_amounts (expenses sample)" "list_all well_formed (expenses sample)"
  "parseFloat (form_amount sample) = Fin (25 / 2)"
  by code_simp+

theorem persistence_round_trip_witness:
  "list_all well_formed (expenses sample)
   \<and> load (Some (save (expenses sample))) = map toJSON (expenses sample)
   \<and> map asExpense (load (Some (save (expenses sample)))) = map Some (expenses sample)
   \<and> list_all well_formed []
   \<and> load (Some (save [])) = []"
proof -
  have e: "list_all well_formed []" by simp
  from persistence_round_trip [OF sample_facts(2)]
  have 1: "load (Some (save (expenses sample))) = map toJSON (expenses sample)"
    and 2: "map asExpense (load (Some (save (expenses sample)))) = map Some (expenses sample)"
    by blast+
  from persistence_round_trip [OF e] have 3: "load (Some (save [])) = []" by simp
  from sample_facts(2) 1 2 e 3 show ?thesis by (intro conjI)
qed

text \<open>An amount that is not finite is written as \<^verbatim>\<open>null\<close> and is not read back: such a record
  (\<^verbatim>\<open>addExpense\<close> creates one from the text \<^verbatim>\<open>Infinity\<close>) is not well formed.\<close>

lemma infinite_amount_not_restored:
  "amount (hd (expenses (addExpense 1762041600000 ''0.4fzyo82mvyr'' (sample\<lparr>form_amount := ''Infinity''\<rparr>))))
     = PInf
   \<and> map asExpense (load (Some (save
         [\<lparr>id' = ''3-c'', date = ''2025-11-03'', category = ''Food'', amount = PInf, note' = None\<rparr>])))
     = [None]"
  by code_simp

text \<open>
  Claim C6. When the slot has no content, or the empty string, or a text that is not JSON,
  or the text of a JSON value that is not an array, the load effect leaves the empty
  collection; \<open>load\<close> is total and has no error value, so nothing is raised.
\<close>

theorem load_corrupt:
  "load None = []
   \<and> load (Some []) = []
   \<and> (JSON_parse s = None \<longrightarrow> load (Some s) = [])
   \<and> (JSON_parse s = Some v \<and> (\<forall>xs. v \<noteq> JArr xs) \<longrightarrow> load (Some s) = [])"
  by (cases v) (auto simp: load_def)

lemma corrupt_texts:
  \<open>JSON_parse ''{"id":"1-a",'' = None\<close>
  \<open>JSON_parse ''{"id":"1-a"}'' = Some (JObj [(''id'', JStr ''1-a'')])\<close>
  \<open>JSON_parse ''42'' = Some (JNum (Fin 42))\<close>
  by code_simp+

theorem load_corrupt_witness:
  \<open>JSON_parse ''{"id":"1-a",'' = None
   \<and> load (Some ''{"id":"1-a",'') = []
   \<and> JSON_parse ''{"id":"1-a"}'' = Some (JObj [(''id'', JStr ''1-a'')])
   \<and> load (Some ''{"id":"1-a"}'') = []
   \<and> JSON_parse ''42'' = Some (JNum (Fin 42))
   \<and> load (Some ''42'') = []\<close>
proof -
  have 1: \<open>load (Some ''{"id":"1-a",'') = []\<close>
    using load_corrupt [of \<open>''{"id":"1-a",''\<close>] corrupt_texts(1) by blast
  have 2: \<open>load (Some ''{"id":"1-a"}'') = []\<close>
    using load_corrupt [of \<open>''{"id":"1-a"}''\<close> "JObj [(''id'', JStr ''1-a'')]"] corrupt_texts(2)
    by blast
  have 3: \<open>load (Some ''42'') = []\<close>
    using load_corrupt [of \<open>''42''\<close> "JNum (Fin 42)"] corrupt_texts(3) by blast
  from corrupt_texts 1 2 3 show ?thesis by (intro conjI)
qed

subsection \<open>The invariant \<open>amount > 0\<close>\<close>








text \<open>An amount text between \<open>0\<close> and \<open>0.005\<close> passes the test \<open>parsedAmount <= 0\<close> and
  is then rounded to \<open>0\<close>: the record is created with the amount \<open>0\<close>.\<close>

lemma addExpense_rounds_to_zero:
  "expenses (addExpense 1762041600000 ''0.4fzyo82mvyr'' (sample\<lparr>form_amount := ''0.004''\<rparr>))
   = \<lparr>id' = ''1762041600000-4fzyo8'', date = ''2025-11-01'', category = ''Food'', amount = Fin 0,
      note' = None\<rparr> # expenses sample"
  by code_simp

end
